theory Spec2Isabelle
  imports Main "HOL-Library.Sublist"
begin

section \<open>Characters and strings of the Python runtime\<close>

text \<open>
  The document text is a Python \<open>str\<close>. A character of the model is a code point
  below 256 (the type \<open>char\<close>); on that range the classes used by \<open>re\<close> and
  by \<open>str.strip\<close> are the ones below: \<open>\s\<close> and \<open>strip()\<close> agree (code points
  9-13, 28-32, 133 and 160), and \<open>\d\<close> is the ASCII digits.
\<close>

definition is_space :: "char \<Rightarrow> bool" where
  "is_space c = (let n = (of_char c :: nat) in
     (9 \<le> n \<and> n \<le> 13) \<or> (28 \<le> n \<and> n \<le> 32) \<or> n = 133 \<or> n = 160)"

definition is_digit :: "char \<Rightarrow> bool" where
  "is_digit c = (let n = (of_char c :: nat) in 48 \<le> n \<and> n \<le> 57)"

definition is_id_char :: "char \<Rightarrow> bool" where
  \<comment> \<open>the class \<open>[a-zA-Z0-9-_]\<close>\<close>
  "is_id_char c = (let n = (of_char c :: nat) in
     (97 \<le> n \<and> n \<le> 122) \<or> (65 \<le> n \<and> n \<le> 90) \<or> (48 \<le> n \<and> n \<le> 57)
     \<or> c = CHR ''-'' \<or> c = CHR ''_'')"

definition lit :: "char \<Rightarrow> char \<Rightarrow> bool" where
  "lit a c = (c = a)"

definition dot :: "char \<Rightarrow> bool" where
  \<comment> \<open>\<open>.\<close> under \<open>re.DOTALL\<close>\<close>
  "dot c = True"

definition strip :: "string \<Rightarrow> string" where
  \<comment> \<open>\<open>str.strip()\<close>\<close>
  "strip s = rev (dropWhile is_space (rev (dropWhile is_space s)))"

section \<open>Backtracking regular expressions\<close>

text \<open>
  The fragment of \<open>re\<close> the two patterns of the program use. The meaning of a pattern at
  a position is the list of the ways it can match there, in the order in which the
  backtracking matcher tries them: a greedy repetition offers its longest match first, a
  lazy one its shortest. Each way is the text consumed, the groups captured and the rest.
  The match \<open>re\<close> reports is the first of the list.
\<close>

datatype re =
    Atom "char \<Rightarrow> bool"
  | Star "char \<Rightarrow> bool"
  | Plus "char \<Rightarrow> bool"
  | LazyStar "char \<Rightarrow> bool"
  | Seq re re
  | Alt re re
  | Group nat re
  | Ahead re
  | EndZ

type_synonym groups = "nat \<rightharpoonup> string"

fun star_g :: "(char \<Rightarrow> bool) \<Rightarrow> string \<Rightarrow> (string \<times> string) list" where
  "star_g P [] = [([], [])]"
| "star_g P (c # cs) =
     (if P c then map (\<lambda>(x, r). (c # x, r)) (star_g P cs) else []) @ [([], c # cs)]"

fun star_l :: "(char \<Rightarrow> bool) \<Rightarrow> string \<Rightarrow> (string \<times> string) list" where
  "star_l P [] = [([], [])]"
| "star_l P (c # cs) =
     ([], c # cs) # (if P c then map (\<lambda>(x, r). (c # x, r)) (star_l P cs) else [])"

fun plus_g :: "(char \<Rightarrow> bool) \<Rightarrow> string \<Rightarrow> (string \<times> string) list" where
  "plus_g P [] = []"
| "plus_g P (c # cs) = (if P c then map (\<lambda>(x, r). (c # x, r)) (star_g P cs) else [])"

fun rmatch :: "re \<Rightarrow> groups \<Rightarrow> string \<Rightarrow> (string \<times> groups \<times> string) list" where
  "rmatch (Atom P) g s = (case s of [] \<Rightarrow> [] | c # cs \<Rightarrow> if P c then [([c], g, cs)] else [])"
| "rmatch (Star P) g s = map (\<lambda>(x, r). (x, g, r)) (star_g P s)"
| "rmatch (Plus P) g s = map (\<lambda>(x, r). (x, g, r)) (plus_g P s)"
| "rmatch (LazyStar P) g s = map (\<lambda>(x, r). (x, g, r)) (star_l P s)"
| "rmatch (Seq a b) g s =
     concat (map (\<lambda>(x, g1, s1). map (\<lambda>(y, g2, s2). (x @ y, g2, s2)) (rmatch b g1 s1))
                 (rmatch a g s))"
| "rmatch (Alt a b) g s = rmatch a g s @ rmatch b g s"
| "rmatch (Group n a) g s = map (\<lambda>(x, g1, s1). (x, g1(n \<mapsto> x), s1)) (rmatch a g s)"
| "rmatch (Ahead a) g s = (case rmatch a g s of [] \<Rightarrow> [] | (x, g1, s1) # _ \<Rightarrow> [([], g1, s)])"
| "rmatch EndZ g s = (if s = [] then [([], g, s)] else [])"

text \<open>
  \<open>re.search\<close>: the first match at the leftmost position that has one. Neither pattern
  looks behind, so a position is the suffix of the text that starts there.
\<close>

fun re_search :: "re \<Rightarrow> string \<Rightarrow> (string \<times> groups) option" where
  "re_search r [] = (case rmatch r Map.empty [] of [] \<Rightarrow> None | (x, g, _) # _ \<Rightarrow> Some (x, g))"
| "re_search r (c # cs) =
     (case rmatch r Map.empty (c # cs) of
        [] \<Rightarrow> re_search r cs
      | (x, g, _) # _ \<Rightarrow> Some (x, g))"

text \<open>
  \<open>re.finditer\<close>: the matches from left to right, each search starting where the match
  before ended. After an empty match the next match at the same position has to be
  non-empty (\<open>must_advance\<close>).
\<close>

function finditer_from :: "re \<Rightarrow> bool \<Rightarrow> string \<Rightarrow> (string \<times> groups) list" where
  "finditer_from r must_advance [] =
     (case filter (\<lambda>(x, g, s1). if must_advance then x \<noteq> [] else True) (rmatch r Map.empty []) of
        [] \<Rightarrow> []
      | (x, g, _) # _ \<Rightarrow> [(x, g)])"
| "finditer_from r must_advance (c # cs) =
     (case filter (\<lambda>(x, g, s1). if must_advance then x \<noteq> [] else True) (rmatch r Map.empty (c # cs)) of
        [] \<Rightarrow> finditer_from r False cs
      | (x, g, _) # _ \<Rightarrow> (x, g) # finditer_from r (x = []) (drop (length x) (c # cs)))"
  by pat_completeness auto
termination
proof (relation "measure (\<lambda>(r, ma, s). 2 * length s + (if ma then 0 else 1))", goal_cases)
  case 1
  show ?case by simp
next
  case (2 r ma c cs)
  show ?case by simp
next
  case (3 r ma c cs m ms x gs g rest)
  have "m \<in> set (filter (\<lambda>(x, g, s1). if ma then x \<noteq> [] else True) (rmatch r Map.empty (c # cs)))"
    using 3(1) by (metis list.set_intros(1))
  then have "ma \<longrightarrow> x \<noteq> []"
    using 3(2,3) by (auto split: if_splits)
  then show ?case
    by (cases x) auto
qed

definition finditer :: "re \<Rightarrow> string \<Rightarrow> (string \<times> groups) list" where
  "finditer r s = finditer_from r False s"

section \<open>The helper functions of the program\<close>

datatype py_error = AttributeError | ValueError | UnicodeDecodeError

text \<open>\<open>extract_doc_id\<close>: the pattern \<open>/d/([a-zA-Z0-9-_]+)\<close>.\<close>

definition doc_id_regex :: re where
  "doc_id_regex =
     Seq (Atom (lit CHR ''/'')) (Seq (Atom (lit CHR ''d'')) (Seq (Atom (lit CHR ''/''))
       (Group 1 (Plus is_id_char))))"

definition extract_doc_id :: "string \<Rightarrow> string option" where
  "extract_doc_id url = (case re_search doc_id_regex url of None \<Rightarrow> None | Some (x, g) \<Rightarrow> g 1)"

text \<open>
  \<open>parse_mcqs_from_text\<close>: the pattern \<open>(Q\s*(\d+)\s*.*?)(?=Q\s*\d+\s*|\Z)\<close> under
  \<open>re.DOTALL\<close>, then the loop over the matches. \<open>match.group(n)\<close> is \<open>None\<close> for a
  group that took no part in the match, and \<open>None.strip()\<close> raises.
\<close>

definition mcq_regex :: re where
  "mcq_regex =
     Seq (Group 1 (Seq (Atom (lit CHR ''Q'')) (Seq (Star is_space) (Seq (Group 2 (Plus is_digit))
            (Seq (Star is_space) (LazyStar dot))))))
         (Ahead (Alt (Seq (Atom (lit CHR ''Q'')) (Seq (Star is_space) (Seq (Plus is_digit)
            (Star is_space)))) EndZ))"

definition lookahead :: re where
  \<comment> \<open>the body of the lookahead of \<open>mcq_regex\<close>: \<open>Q\s*\d+\s*|\Z\<close>\<close>
  "lookahead = Alt (Seq (Atom (lit CHR ''Q'')) (Seq (Star is_space) (Seq (Plus is_digit)
            (Star is_space)))) EndZ"

record question =
  q_num_str :: string
  full_text :: string

fun parse_loop :: "(string \<times> groups) list \<Rightarrow> question list \<Rightarrow> py_error + question list" where
  "parse_loop [] parsed_questions = Inr parsed_questions"
| "parse_loop ((x, g) # matches) parsed_questions =
     (case g 1 of
        None \<Rightarrow> Inl AttributeError
      | Some g1 \<Rightarrow>
         (case g 2 of
            None \<Rightarrow> Inl AttributeError
          | Some g2 \<Rightarrow>
             (let full = strip g1; q_num = strip g2
              in if full \<noteq> []
                 then parse_loop matches
                        (parsed_questions @ [\<lparr>q_num_str = q_num, full_text = full\<rparr>])
                 else parse_loop matches parsed_questions)))"

definition parse_mcqs_from_text :: "string \<Rightarrow> py_error + question list" where
  "parse_mcqs_from_text doc_text = parse_loop (finditer mcq_regex doc_text) []"

section \<open>The classifier call\<close>

text \<open>
  The values \<open>json.loads\<close> returns, floating-point numbers apart (the response schema
  has none, and they play no part in what follows). Python's \<open>None\<close> is \<open>JNull\<close>; a
  \<open>dict\<close> is the list of its items.
\<close>

datatype json =
    JNull
  | JBool bool
  | JInt int
  | JStr string
  | JList "json list"
  | JDict "(string \<times> json) list"

fun truthy :: "json \<Rightarrow> bool" where
  "truthy JNull = False"
| "truthy (JBool b) = b"
| "truthy (JInt i) = (i \<noteq> 0)"
| "truthy (JStr s) = (s \<noteq> [])"
| "truthy (JList xs) = (xs \<noteq> [])"
| "truthy (JDict kvs) = (kvs \<noteq> [])"

text \<open>
  What the body of the \<open>try\<close> in \<open>run_mcq_audit_gemini\<close> does is outside the program:
  either the request and \<open>json.loads\<close> give a value, or one of them raises an exception
  \<open>e\<close>, of which the handler reads \<open>str(e)\<close> only.
\<close>

datatype attempt = Raised string | Loaded json

definition run_mcq_audit_gemini :: "(string \<Rightarrow> attempt) \<Rightarrow> string \<Rightarrow> json" where
  "run_mcq_audit_gemini generate one_question_text =
     (case generate one_question_text of
        Loaded v \<Rightarrow> v
      | Raised e \<Rightarrow> if sublist ''429'' e then JStr ''RATE_LIMIT_ERROR'' else JNull)"

section \<open>The conversion \<open>int(str)\<close>\<close>

text \<open>
  \<open>int(s)\<close> in base 10: white space around (for \<open>int\<close> the code points 9-13, 32, 133
  and 160), an optional sign, then digits, where single underscores may separate digits.
  \<open>None\<close> is the \<open>ValueError\<close>. The integers are unbounded, but the conversion is
  not: the runtime refuses a string of more than 4300 digits (the default of
  \<open>sys.get_int_max_str_digits()\<close>, which the program does not change), counting the
  digits only, not the sign, the white space or the underscores.
\<close>

definition int_max_str_digits :: nat where
  "int_max_str_digits = 4300"

definition int_space :: "char \<Rightarrow> bool" where
  "int_space c = (let n = (of_char c :: nat) in (9 \<le> n \<and> n \<le> 13) \<or> n = 32 \<or> n = 133 \<or> n = 160)"

definition digit_val :: "char \<Rightarrow> int" where
  "digit_val c = int (of_char c) - 48"

fun digits_value :: "int \<Rightarrow> string \<Rightarrow> int option" where
  "digits_value acc [] = Some acc"
| "digits_value acc [c] = (if is_digit c then Some (10 * acc + digit_val c) else None)"
| "digits_value acc (c # d # ds) =
     (if is_digit c then digits_value (10 * acc + digit_val c) (d # ds)
      else if c = CHR ''_'' \<and> is_digit d then digits_value (10 * acc + digit_val d) ds
      else None)"

definition unsigned_value :: "string \<Rightarrow> int option" where
  "unsigned_value s = (case s of [] \<Rightarrow> None | c # cs \<Rightarrow>
     if is_digit c then digits_value (digit_val c) cs else None)"

definition py_int :: "string \<Rightarrow> int option" where
  "py_int s =
     (let t = rev (dropWhile int_space (rev (dropWhile int_space s)))
      in if int_max_str_digits < length (filter is_digit t) then None
         else (case t of
            [] \<Rightarrow> None
          | c # cs \<Rightarrow>
              if c = CHR ''-'' then map_option uminus (unsigned_value cs)
              else if c = CHR ''+'' then unsigned_value cs
              else unsigned_value (c # cs)))"

section \<open>The endpoint\<close>

text \<open>
  What the endpoint does to the outside, in order: the request for the document, the
  calls of the classifier (numbered from 1, with the question text sent) and the pauses.
  Console output is left out, and so is a request cancelled while the endpoint pauses.
\<close>

datatype event = HttpGet string | Classify nat string | Sleep nat

datatype response = Report "json list" | HTTPException nat string | Uncaught py_error

type_synonym classifier = "nat \<Rightarrow> string \<Rightarrow> attempt"

text \<open>
  The \<open>for\<close> loop of \<open>audit_document\<close>: \<open>calls\<close> counts the classifier calls made so
  far, \<open>final_audit_list\<close> is the report so far and \<open>trace\<close> the events so far.
\<close>

fun audit_loop ::
  "classifier \<Rightarrow> nat \<Rightarrow> question list \<Rightarrow> json list \<Rightarrow> event list \<Rightarrow> response \<times> event list"
where
  "audit_loop api calls [] final_audit_list trace = (Report final_audit_list, trace)"
| "audit_loop api calls (q # qs) final_audit_list trace =
     (let result_obj = run_mcq_audit_gemini (api (Suc calls)) (full_text q);
          trace1 = trace @ [Classify (Suc calls) (full_text q)]
      in if result_obj = JStr ''RATE_LIMIT_ERROR'' then
           (case py_int (q_num_str q) of
              None \<Rightarrow> (Uncaught ValueError, trace1)
            | Some n \<Rightarrow>
                (Report (final_audit_list @
                   [JDict [(''Q_no'', JInt n), (''Option Status'', JStr ''Inconclusive''),
                           (''Issue Summary'', JStr ''Failed: API Rate Limit hit.'')]]),
                 trace1))
         else if truthy result_obj then
           audit_loop api (Suc calls) qs (final_audit_list @ [result_obj]) (trace1 @ [Sleep 5])
         else
           (case py_int (q_num_str q) of
              None \<Rightarrow> (Uncaught ValueError, trace1)
            | Some n \<Rightarrow>
                audit_loop api (Suc calls) qs
                  (final_audit_list @
                     [JDict [(''Q_no'', JInt n), (''Option Status'', JStr ''Inconclusive''),
                             (''Issue Summary'', JStr ''Failed to audit (API or JSON error)'')]])
                  (trace1 @ [Sleep 5])))"

text \<open>
  \<open>get_google_doc_text\<close>: \<open>requests.get\<close> gives a response (status code and content)
  or raises \<open>RequestException\<close>; the content decodes as UTF-8 to a text or does not, and
  \<open>UnicodeDecodeError\<close> is not among the exceptions the function catches.
\<close>

datatype content = Utf8 string | NotUtf8

datatype http_outcome = Response int content | RequestException

definition export_url :: "string \<Rightarrow> string" where
  "export_url doc_id = ''https://docs.google.com/document/d/'' @ doc_id @ ''/export?format=txt''"

definition get_google_doc_text :: "(string \<Rightarrow> http_outcome) \<Rightarrow> string \<Rightarrow> py_error + string option" where
  "get_google_doc_text requests_get doc_id =
     (case requests_get (export_url doc_id) of
        RequestException \<Rightarrow> Inr None
      | Response status_code body \<Rightarrow>
          if status_code = 200
          then (case body of Utf8 text \<Rightarrow> Inr (Some text) | NotUtf8 \<Rightarrow> Inl UnicodeDecodeError)
          else Inr None)"

text \<open>
  Module level: \<open>GOOGLE_API_KEY\<close> is \<open>os.environ.get(...)\<close>, a string or \<open>None\<close>.
  Importing the module prints and, with a key, configures the client; no branch raises.
\<close>

definition no_key :: "string option \<Rightarrow> bool" where
  \<comment> \<open>\<open>not GOOGLE_API_KEY\<close>\<close>
  "no_key k = (case k of None \<Rightarrow> True | Some s \<Rightarrow> s = [])"

record module_state =
  client_configured :: bool
  console :: "string list"

definition load_module :: "string option \<Rightarrow> py_error + module_state" where
  "load_module GOOGLE_API_KEY =
     (if no_key GOOGLE_API_KEY
      then Inr \<lparr>client_configured = False,
                console = [''FATAL ERROR: 'GOOGLE_API_KEY' not found in .env file.'']\<rparr>
      else Inr \<lparr>client_configured = True,
                console = [''Google AI client configuring...'',
                           ''Google AI client configured successfully.'']\<rparr>)"

definition audit_document ::
  "string option \<Rightarrow> (string \<Rightarrow> http_outcome) \<Rightarrow> classifier \<Rightarrow> string \<Rightarrow> response \<times> event list"
where
  "audit_document GOOGLE_API_KEY requests_get api doc_url =
     (if no_key GOOGLE_API_KEY then (HTTPException 500 ''Server is missing GOOGLE_API_KEY'', [])
      else case extract_doc_id doc_url of
        None \<Rightarrow> (HTTPException 400 ''Invalid Google Doc link.'', [])
      | Some doc_id \<Rightarrow>
          if doc_id = [] then (HTTPException 400 ''Invalid Google Doc link.'', [])
          else
            (let trace = [HttpGet (export_url doc_id)]
             in case get_google_doc_text requests_get doc_id of
               Inl e \<Rightarrow> (Uncaught e, trace)
             | Inr None \<Rightarrow> (HTTPException 404 ''Failed to get document text. Is it public?'', trace)
             | Inr (Some doc_text) \<Rightarrow>
                 if doc_text = []
                 then (HTTPException 404 ''Failed to get document text. Is it public?'', trace)
                 else
                   (case parse_mcqs_from_text doc_text of
                      Inl e \<Rightarrow> (Uncaught e, trace)
                    | Inr parsed_questions \<Rightarrow>
                        if parsed_questions = []
                        then (HTTPException 404 ''No valid question blocks (e.g., 'Q1') found.'', trace)
                        else audit_loop api 0 parsed_questions [] trace)))"

section \<open>Notions the properties are stated with\<close>

text \<open>
  A question marker occurs at the start of \<open>s\<close>: the letter \<open>Q\<close>, optional white space,
  then at least one digit. \<open>marker_of s\<close> is the marker itself: the \<open>Q\<close>, the white space
  and the whole run of digits.
\<close>

definition marker_at :: "string \<Rightarrow> bool" where
  "marker_at s = (case s of [] \<Rightarrow> False | c # cs \<Rightarrow>
     c = CHR ''Q'' \<and> (case dropWhile is_space cs of [] \<Rightarrow> False | d # _ \<Rightarrow> is_digit d))"

definition marker_of :: "string \<Rightarrow> string" where
  "marker_of s = (case s of [] \<Rightarrow> [] | c # cs \<Rightarrow>
     c # takeWhile is_space cs @ takeWhile is_digit (dropWhile is_space cs))"

definition marker_regex :: re where
  \<comment> \<open>\<open>Q\s*\d+\<close>\<close>
  "marker_regex = Seq (Atom (lit CHR ''Q'')) (Seq (Star is_space) (Plus is_digit))"

definition marker_positions :: "string \<Rightarrow> nat list" where
  "marker_positions t = filter (\<lambda>p. marker_at (drop p t)) [0..<length t]"

definition slice :: "string \<Rightarrow> nat \<times> nat \<Rightarrow> string" where
  \<comment> \<open>\<open>t[a:b]\<close>\<close>
  "slice t ab = (case ab of (a, b) \<Rightarrow> take (b - a) (drop a t))"

text \<open>
  The text up to the next marker or the end of the text, and what is left from there;
  the matches of \<open>mcq_regex\<close> written with it (the text matched and the digits of
  group 2), as \<open>finditer_mcq\<close> below shows.
\<close>

fun to_next_marker :: "string \<Rightarrow> string \<times> string" where
  "to_next_marker [] = ([], [])"
| "to_next_marker (c # cs) =
     (if marker_at (c # cs) then ([], c # cs)
      else (case to_next_marker cs of (y, r) \<Rightarrow> (c # y, r)))"

function mcq_matches :: "string \<Rightarrow> (string \<times> string) list" where
  "mcq_matches [] = []"
| "mcq_matches (c # cs) =
     (if marker_at (c # cs)
      then (c # fst (to_next_marker cs), takeWhile is_digit (dropWhile is_space cs))
             # mcq_matches (snd (to_next_marker cs))
      else mcq_matches cs)"
  by pat_completeness auto
termination
proof (relation "measure length", goal_cases)
  case 1
  show ?case by simp
next
  case (2 c cs)
  have "length (snd (to_next_marker s)) \<le> length s" for s
    by (induction s) (auto split: prod.splits)
  then show ?case
    by (simp add: le_imp_less_Suc)
next
  case (3 c cs)
  show ?case by simp
qed

text \<open>
  A verdict of the shape the classifier is asked for: an object with an integer
  \<open>Q_no\<close>, an \<open>Option Status\<close> among the three of the schema and an \<open>Issue Summary\<close> that
  is a string or null.
\<close>

definition is_verdict :: "json \<Rightarrow> bool" where
  "is_verdict v = (case v of
     JDict kvs \<Rightarrow>
       (case map_of kvs ''Q_no'' of Some (JInt n) \<Rightarrow> True | _ \<Rightarrow> False)
       \<and> (case map_of kvs ''Option Status'' of
            Some (JStr s) \<Rightarrow> s = ''OK'' \<or> s = ''Faulty'' \<or> s = ''Inconclusive''
          | _ \<Rightarrow> False)
       \<and> (case map_of kvs ''Issue Summary'' of
            Some (JStr s) \<Rightarrow> True
          | Some JNull \<Rightarrow> True
          | _ \<Rightarrow> False)
   | _ \<Rightarrow> False)"


definition failed_verdict :: "int \<Rightarrow> json" where
  "failed_verdict n =
     JDict [(''Q_no'', JInt n), (''Option Status'', JStr ''Inconclusive''),
            (''Issue Summary'', JStr ''Failed to audit (API or JSON error)'')]"

fun calls_of :: "event list \<Rightarrow> (nat \<times> string) list" where
  "calls_of [] = []"
| "calls_of (Classify i t # es) = (i, t) # calls_of es"
| "calls_of (e # es) = calls_of es"

fun paced_calls :: "nat \<Rightarrow> question list \<Rightarrow> event list" where
  "paced_calls calls [] = []"
| "paced_calls calls (q # qs) =
     Classify (Suc calls) (full_text q) # Sleep 5 # paced_calls (Suc calls) qs"

definition report_entry :: "json \<Rightarrow> question \<Rightarrow> json option" where
  "report_entry result_obj q =
     (if truthy result_obj then Some result_obj
      else map_option failed_verdict (py_int (q_num_str q)))"

definition decimal :: "string \<Rightarrow> int" where
  "decimal s = foldl (\<lambda>n c. 10 * n + digit_val c) 0 s"

section \<open>Sample inputs\<close>

definition sample_text :: string where
  "sample_text = ''xQ1 aQ 2b''"

definition two_questions :: "question list" where
  "two_questions = [\<lparr>q_num_str = ''1'', full_text = ''Q1 a''\<rparr>,
                    \<lparr>q_num_str = ''2'', full_text = ''Q 2b''\<rparr>]"

definition three_questions :: "question list" where
  "three_questions = [\<lparr>q_num_str = ''1'', full_text = ''Q1 a''\<rparr>,
                      \<lparr>q_num_str = ''2'', full_text = ''Q 2b''\<rparr>,
                      \<lparr>q_num_str = ''3'', full_text = ''Q3 c''\<rparr>]"

definition sample_verdict :: "int \<Rightarrow> json" where
  "sample_verdict n =
     JDict [(''Q_no'', JInt n), (''Option Status'', JStr ''OK''), (''Issue Summary'', JNull)]"

definition normal_api :: classifier where
  "normal_api i t = Loaded (sample_verdict (int i))"


definition flaky_api :: classifier where
  \<comment> \<open>the response of the second call is not JSON\<close>
  "flaky_api i t =
     (if i = 2 then Raised ''Expecting value: line 1 column 1 (char 0)''
      else Loaded (sample_verdict (int i)))"

definition malformed_api :: classifier where
  \<comment> \<open>the response of the first call is 429 spaces and an \<open>x\<close>: the text of the exception
      is the one \<open>json.loads\<close> raises on it\<close>
  "malformed_api i t =
     (if i = 1 then Raised ''Expecting value: line 1 column 430 (char 429)''
      else Loaded (sample_verdict (int i)))"

definition broken_api :: classifier where
  "broken_api i t = Raised ''500 Internal error''"

definition long_label :: string where
  "long_label = replicate 4301 CHR ''0''"

definition long_label_text :: string where
  "long_label_text = CHR ''Q'' # long_label"

definition long_label_document :: "string \<Rightarrow> http_outcome" where
  "long_label_document url = Response 200 (Utf8 long_label_text)"

definition sample_url :: string where
  "sample_url = ''https://docs.google.com/document/d/abc/edit''"

definition empty_document :: "string \<Rightarrow> http_outcome" where
  "empty_document url = Response 200 (Utf8 [])"

definition plain_document :: "string \<Rightarrow> http_outcome" where
  "plain_document url = Response 200 (Utf8 ''no questions here'')"

section \<open>The matcher on the two patterns\<close>

lemma digit_not_space: "is_digit c \<Longrightarrow> \<not> is_space c"
  by (auto simp: is_digit_def is_space_def Let_def)

lemma digit_not_Q: "is_digit c \<Longrightarrow> c \<noteq> CHR ''Q''"
  by (auto simp: is_digit_def)

lemma space_not_Q: "is_space c \<Longrightarrow> c \<noteq> CHR ''Q''"
  by (auto simp: is_space_def)

lemma star_g_first: "\<exists>zs. star_g P s = (takeWhile P s, dropWhile P s) # zs"
  by (induction s) auto

lemma star_g_rest:
  "(x, r) \<in> set (star_g P s) \<Longrightarrow> r = dropWhile P s \<or> (r \<noteq> [] \<and> P (hd r))"
  by (induction s arbitrary: x) (auto split: if_splits)

lemma plus_g_first:
  "P c \<Longrightarrow> \<exists>zs. plus_g P (c # cs) = (takeWhile P (c # cs), dropWhile P (c # cs)) # zs"
  using star_g_first [of P cs] by auto

lemma plus_g_none: "s = [] \<or> \<not> P (hd s) \<Longrightarrow> plus_g P s = []"
  by (cases s) auto

lemma rmatch_Seq_first:
  "rmatch a g s = (x, g1, s1) # zs \<Longrightarrow> rmatch b g1 s1 = (y, g2, s2) # zs2 \<Longrightarrow>
   \<exists>zs'. rmatch (Seq a b) g s = (x @ y, g2, s2) # zs'"
  by simp


lemma rmatch_marker_body_none:
  assumes "\<not> marker_at s"
  shows "rmatch (Seq (Atom (lit CHR ''Q'')) (Seq (Star is_space) (Seq (Plus is_digit) b))) g s = []"
    and "rmatch (Seq (Atom (lit CHR ''Q'')) (Seq (Star is_space) (Seq (Group n (Plus is_digit)) b))) g s = []"
    and "rmatch (Seq (Atom (lit CHR ''Q'')) (Seq (Star is_space) (Plus is_digit))) g s = []"
proof -
  have none: "plus_g is_digit s1 = []"
    if "(x, s1) \<in> set (star_g is_space cs)" and "s = CHR ''Q'' # cs" for x s1 cs
  proof -
    from that(1) have "s1 = dropWhile is_space cs \<or> (s1 \<noteq> [] \<and> is_space (hd s1))"
      by (rule star_g_rest)
    then have "s1 = [] \<or> \<not> is_digit (hd s1)"
    proof
      assume "s1 = dropWhile is_space cs"
      with assms that(2) show ?thesis
        by (auto simp: marker_at_def split: list.splits)
    next
      assume "s1 \<noteq> [] \<and> is_space (hd s1)"
      then show ?thesis using digit_not_space by blast
    qed
    then show ?thesis by (rule plus_g_none)
  qed
  show "rmatch (Seq (Atom (lit CHR ''Q'')) (Seq (Star is_space) (Seq (Plus is_digit) b))) g s = []"
    using none by (cases s) (auto simp: lit_def)
  show "rmatch (Seq (Atom (lit CHR ''Q'')) (Seq (Star is_space) (Seq (Group n (Plus is_digit)) b))) g s = []"
    using none by (cases s) (auto simp: lit_def)
  show "rmatch (Seq (Atom (lit CHR ''Q'')) (Seq (Star is_space) (Plus is_digit))) g s = []"
    using none by (cases s) (auto simp: lit_def)
qed


lemma rmatch_Seq_block_map:
  assumes "rmatch a g s = (x, g1, s1) # zs"
    and "rmatch b g1 s1 = map (\<lambda>(y, r). (F y, G y, r)) L @ zs2"
  shows "\<exists>zs'. rmatch (Seq a b) g s = map (\<lambda>(y, r). (x @ F y, G y, r)) L @ zs'"
  using assms by (simp add: case_prod_unfold)

lemma rmatch_Group_block_map:
  assumes "rmatch a g s = map (\<lambda>(y, r). (F y, G y, r)) L @ zs"
  shows "\<exists>zs'. rmatch (Group n a) g s = map (\<lambda>(y, r). (F y, (G y)(n \<mapsto> F y), r)) L @ zs'"
  using assms by (simp add: case_prod_unfold)

lemma marker_atE:
  assumes "marker_at s"
  obtains cs d ds where "s = CHR ''Q'' # cs" "dropWhile is_space cs = d # ds" "is_digit d"
  using assms by (auto simp: marker_at_def split: list.splits)

lemma lookahead_groups: "(x, g', s') \<in> set (rmatch lookahead g s) \<Longrightarrow> g' = g"
  by (auto simp: lookahead_def split: list.splits if_splits)

lemma lookahead_iff: "rmatch lookahead g s \<noteq> [] \<longleftrightarrow> marker_at s \<or> s = []"
proof (cases "marker_at s")
  case True
  then obtain cs d ds where s: "s = CHR ''Q'' # cs" and dw: "dropWhile is_space cs = d # ds"
    and d: "is_digit d" by (rule marker_atE)
  obtain z1 where 1: "rmatch (Star is_space) g (dropWhile is_digit (d # ds)) =
      (takeWhile is_space (dropWhile is_digit (d # ds)), g,
       dropWhile is_space (dropWhile is_digit (d # ds))) # z1"
    using star_g_first [of is_space "dropWhile is_digit (d # ds)"] by auto
  obtain z2 where 2: "rmatch (Plus is_digit) g (d # ds) =
      (takeWhile is_digit (d # ds), g, dropWhile is_digit (d # ds)) # z2"
    using plus_g_first [of is_digit d ds] d by auto
  obtain z3 where 3: "rmatch (Star is_space) g cs = (takeWhile is_space cs, g, d # ds) # z3"
    using star_g_first [of is_space cs] dw by auto
  have 4: "rmatch (Atom (lit CHR ''Q'')) g s = [([CHR ''Q''], g, cs)]"
    by (simp add: s lit_def)
  from rmatch_Seq_first [OF 2 1] obtain z5 y5 g5 s5
    where 5: "rmatch (Seq (Plus is_digit) (Star is_space)) g (d # ds) = (y5, g5, s5) # z5"
    by blast
  from rmatch_Seq_first [OF 3 5] obtain z6 y6 g6 s6
    where 6: "rmatch (Seq (Star is_space) (Seq (Plus is_digit) (Star is_space))) g cs = (y6, g6, s6) # z6"
    by blast
  from rmatch_Seq_first [OF 4 6] obtain z7 where
    "rmatch (Seq (Atom (lit CHR ''Q'')) (Seq (Star is_space) (Seq (Plus is_digit) (Star is_space)))) g s
       = ([CHR ''Q''] @ y6, g6, s6) # z7"
    by blast
  then show ?thesis using True by (simp add: lookahead_def)
next
  case False
  then show ?thesis
    using rmatch_marker_body_none(1) [OF False, of "Star is_space" g]
    by (simp add: lookahead_def)
qed

lemma rmatch_Ahead_lookahead:
  "rmatch (Ahead lookahead) g s = (if marker_at s \<or> s = [] then [([], g, s)] else [])"
proof (cases "rmatch lookahead g s")
  case Nil
  then show ?thesis using lookahead_iff [of g s] by simp
next
  case (Cons m ms)
  obtain x g' s' where m: "m = (x, g', s')" by (cases m)
  have "g' = g" using lookahead_groups [of x g' s' g s] Cons m by simp
  then show ?thesis using lookahead_iff [of g s] Cons m by simp
qed


lemma star_l_dot_Cons:
  "star_l dot (c # cs) = ([], c # cs) # map (\<lambda>(x, r). (c # x, r)) (star_l dot cs)"
  by (simp add: dot_def)

lemma to_next_marker_append:
  "\<forall>c\<in>set p. c \<noteq> CHR ''Q'' \<Longrightarrow>
   to_next_marker (p @ s) = (p @ fst (to_next_marker s), snd (to_next_marker s))"
  by (induction p) (auto simp: marker_at_def split: prod.splits)

lemma star_l_first_ahead:
  "\<exists>zs. concat (map (\<lambda>(y, r). if marker_at r \<or> r = [] then [K y r] else []) (star_l dot s))
     = K (fst (to_next_marker s)) (snd (to_next_marker s)) # zs"
proof (induction s arbitrary: K)
  case Nil
  show ?case by simp
next
  case (Cons c cs)
  show ?case
  proof (cases "marker_at (c # cs)")
    case True
    then show ?thesis by simp
  next
    case False
    from Cons [of "\<lambda>y r. K (c # y) r"] obtain zs where
      "concat (map (\<lambda>(y, r). if marker_at r \<or> r = [] then [K (c # y) r] else []) (star_l dot cs))
         = K (c # fst (to_next_marker cs)) (snd (to_next_marker cs)) # zs"
      by blast
    then show ?thesis using False
      by (simp add: star_l_dot_Cons map_map comp_def case_prod_unfold del: star_l.simps
               cong: if_cong)
  qed
qed

lemma rmatch_Seq_Ahead_block_map:
  assumes "rmatch a g s = map (\<lambda>(y, r). (F y, G y, r)) (star_l dot s4) @ zs"
  shows "\<exists>zs'. rmatch (Seq a (Ahead lookahead)) g s =
     (F (fst (to_next_marker s4)), G (fst (to_next_marker s4)), snd (to_next_marker s4)) # zs'"
proof -
  have "rmatch (Seq a (Ahead lookahead)) g s =
      concat (map (\<lambda>(y, r). if marker_at r \<or> r = [] then [(F y, G y, r)] else []) (star_l dot s4))
      @ concat (map (\<lambda>(x, g1, s1). map (\<lambda>(y, g2, s2). (x @ y, g2, s2))
                 (rmatch (Ahead lookahead) g1 s1)) zs)"
    unfolding rmatch.simps(5) assms map_append concat_append map_map comp_def
    by (rule arg_cong2 [where f = "(@)"], rule arg_cong [where f = concat], rule map_cong)
       (auto simp: rmatch_Ahead_lookahead simp del: rmatch.simps(8))
  then show ?thesis
    using star_l_first_ahead [of "\<lambda>y r. (F y, G y, r)" s4] by auto
qed

lemma mcq_regex_unfold:
  "mcq_regex = Seq (Group 1 (Seq (Atom (lit CHR ''Q'')) (Seq (Star is_space)
      (Seq (Group 2 (Plus is_digit)) (Seq (Star is_space) (LazyStar dot)))))) (Ahead lookahead)"
  by (simp add: mcq_regex_def lookahead_def)

lemma mcq_regex_none:
  assumes "\<not> marker_at s"
  shows "rmatch mcq_regex g s = []"
proof -
  have 1: "rmatch (Seq (Atom (lit CHR ''Q'')) (Seq (Star is_space) (Seq (Group 2 (Plus is_digit))
             (Seq (Star is_space) (LazyStar dot))))) g s = []"
    using assms by (rule rmatch_marker_body_none(2))
  have 2: "rmatch a g s = [] \<Longrightarrow> rmatch (Seq (Group n a) b) g s = []" for a b n
    by simp
  show ?thesis
    unfolding mcq_regex_unfold using 1 by (rule 2)
qed

lemma mcq_regex_first:
  assumes "marker_at (c # cs)"
  shows "\<exists>zs. rmatch mcq_regex g (c # cs) =
    (c # fst (to_next_marker cs),
     g(2 \<mapsto> takeWhile is_digit (dropWhile is_space cs), 1 \<mapsto> c # fst (to_next_marker cs)),
     snd (to_next_marker cs)) # zs"
proof -
  from assms obtain d ds where c: "c = CHR ''Q''" and dw: "dropWhile is_space cs = d # ds"
    and d: "is_digit d" by (auto elim: marker_atE)
  define w where "w = takeWhile is_space cs"
  define n where "n = takeWhile is_digit (d # ds)"
  define s3 where "s3 = dropWhile is_digit (d # ds)"
  define w2 where "w2 = takeWhile is_space s3"
  define s4 where "s4 = dropWhile is_space s3"
  define g' where "g' = g(2 \<mapsto> n)"
  have cs: "cs = (w @ n @ w2) @ s4"
    unfolding w_def n_def w2_def s4_def s3_def
    by (metis append.assoc dw takeWhile_dropWhile_id)
  have notQ: "\<forall>a\<in>set (w @ n @ w2). a \<noteq> CHR ''Q''"
    unfolding w_def n_def w2_def
    using digit_not_Q space_not_Q by (auto dest!: set_takeWhileD)
  have 1: "rmatch (LazyStar dot) g' s4 = map (\<lambda>(y, r). (y, g', r)) (star_l dot s4) @ []"
    by simp
  obtain z2 where 2: "rmatch (Star is_space) g' s3 = (w2, g', s4) # z2"
    using star_g_first [of is_space s3] by (auto simp: w2_def s4_def)
  obtain z3 where 3: "rmatch (Group 2 (Plus is_digit)) g (d # ds) = (n, g', s3) # z3"
    using plus_g_first [of is_digit d ds] d by (auto simp: n_def s3_def g'_def)
  obtain z4 where 4: "rmatch (Star is_space) g cs = (w, g, d # ds) # z4"
    using star_g_first [of is_space cs] dw by (auto simp: w_def)
  have 5: "rmatch (Atom (lit CHR ''Q'')) g (c # cs) = ([c], g, cs) # []"
    by (simp add: c lit_def)
  from rmatch_Seq_block_map [OF 2 1] obtain z6 where
    6: "rmatch (Seq (Star is_space) (LazyStar dot)) g' s3
          = map (\<lambda>(y, r). (w2 @ y, g', r)) (star_l dot s4) @ z6"
    by blast
  from rmatch_Seq_block_map [OF 3 6] obtain z7 where
    7: "rmatch (Seq (Group 2 (Plus is_digit)) (Seq (Star is_space) (LazyStar dot))) g (d # ds)
          = map (\<lambda>(y, r). (n @ w2 @ y, g', r)) (star_l dot s4) @ z7"
    by blast
  from rmatch_Seq_block_map [OF 4 7] obtain z8 where
    8: "rmatch (Seq (Star is_space) (Seq (Group 2 (Plus is_digit))
                 (Seq (Star is_space) (LazyStar dot)))) g cs
          = map (\<lambda>(y, r). (w @ n @ w2 @ y, g', r)) (star_l dot s4) @ z8"
    by blast
  from rmatch_Seq_block_map [OF 5 8] obtain z9 where
    9: "rmatch (Seq (Atom (lit CHR ''Q'')) (Seq (Star is_space) (Seq (Group 2 (Plus is_digit))
                 (Seq (Star is_space) (LazyStar dot))))) g (c # cs)
          = map (\<lambda>(y, r). ([c] @ w @ n @ w2 @ y, g', r)) (star_l dot s4) @ z9"
    by blast
  from rmatch_Group_block_map [OF 9, of 1] obtain z10 where
    10: "rmatch (Group 1 (Seq (Atom (lit CHR ''Q'')) (Seq (Star is_space)
                 (Seq (Group 2 (Plus is_digit)) (Seq (Star is_space) (LazyStar dot)))))) g (c # cs)
          = map (\<lambda>(y, r). ([c] @ w @ n @ w2 @ y, g'(1 \<mapsto> [c] @ w @ n @ w2 @ y), r))
              (star_l dot s4) @ z10"
    by blast
  from rmatch_Seq_Ahead_block_map [OF 10] obtain z11 where
    11: "rmatch mcq_regex g (c # cs) =
       ([c] @ w @ n @ w2 @ fst (to_next_marker s4),
        g'(1 \<mapsto> [c] @ w @ n @ w2 @ fst (to_next_marker s4)), snd (to_next_marker s4)) # z11"
    unfolding mcq_regex_unfold by blast
  have "to_next_marker cs = ((w @ n @ w2) @ fst (to_next_marker s4), snd (to_next_marker s4))"
    using to_next_marker_append [OF notQ, of s4] cs by simp
  then show ?thesis
    using 11 by (simp add: g'_def n_def dw)
qed


lemma to_next_marker_id: "fst (to_next_marker s) @ snd (to_next_marker s) = s"
  by (induction s) (auto split: prod.splits)

lemma to_next_marker_drop: "drop (length (fst (to_next_marker s))) s = snd (to_next_marker s)"
  by (metis append_eq_conv_conj to_next_marker_id)

lemma to_next_marker_stops: "snd (to_next_marker s) = [] \<or> marker_at (snd (to_next_marker s))"
  by (induction s) (auto split: prod.splits)

lemma to_next_marker_skips:
  "k < length (fst (to_next_marker s)) \<Longrightarrow> \<not> marker_at (drop k s)"
proof (induction s arbitrary: k)
  case Nil
  then show ?case by simp
next
  case (Cons c cs)
  then show ?case
    by (cases k) (auto split: prod.splits if_splits)
qed

lemma finditer_mcq:
  "finditer mcq_regex s = map (\<lambda>(x, d). (x, [2 \<mapsto> d, 1 \<mapsto> x])) (mcq_matches s)"
  unfolding finditer_def
proof (induction s rule: mcq_matches.induct)
  case 1
  have "rmatch mcq_regex Map.empty [] = []"
    by (rule mcq_regex_none) (simp add: marker_at_def)
  then show ?case by simp
next
  case (2 c cs)
  show ?case
  proof (cases "marker_at (c # cs)")
    case True
    from mcq_regex_first [OF True, of Map.empty] obtain zs where
      "rmatch mcq_regex Map.empty (c # cs) =
         (c # fst (to_next_marker cs),
          [2 \<mapsto> takeWhile is_digit (dropWhile is_space cs), 1 \<mapsto> c # fst (to_next_marker cs)],
          snd (to_next_marker cs)) # zs"
      by blast
    then show ?thesis
      using True 2(1) by (simp add: to_next_marker_drop fun_eq_iff)
  next
    case False
    then have "rmatch mcq_regex Map.empty (c # cs) = []"
      by (rule mcq_regex_none)
    then show ?thesis
      using False 2(2) by simp
  qed
qed

lemma takeWhile_prefix_dropWhile: "y @ r = dropWhile P s \<Longrightarrow> takeWhile P y = []"
proof (cases y)
  case Nil
  then show ?thesis by simp
next
  case (Cons a ys)
  assume "y @ r = dropWhile P s"
  with Cons have "dropWhile P s = a # ys @ r" by simp
  then have "\<not> P a" using hd_dropWhile [of P s] by auto
  then show ?thesis using Cons by simp
qed

lemma marker_header:
  assumes "marker_at (c # cs)"
  shows "\<exists>y. fst (to_next_marker cs)
            = takeWhile is_space cs @ takeWhile is_digit (dropWhile is_space cs) @ y
          \<and> takeWhile is_digit y = []"
    and "takeWhile is_digit (dropWhile is_space cs) \<noteq> []"
proof -
  from assms obtain e es where dw: "dropWhile is_space cs = e # es"
    and e: "is_digit e" by (auto elim: marker_atE)
  define w where "w = takeWhile is_space cs"
  define n where "n = takeWhile is_digit (e # es)"
  define s3 where "s3 = dropWhile is_digit (e # es)"
  have cs: "cs = (w @ n) @ s3"
    unfolding w_def n_def s3_def by (metis append.assoc dw takeWhile_dropWhile_id)
  have "\<forall>a\<in>set (w @ n). a \<noteq> CHR ''Q''"
    unfolding w_def n_def using digit_not_Q space_not_Q by (auto dest!: set_takeWhileD)
  then have "to_next_marker ((w @ n) @ s3) = ((w @ n) @ fst (to_next_marker s3), snd (to_next_marker s3))"
    by (rule to_next_marker_append)
  then have 1: "fst (to_next_marker cs) = w @ n @ fst (to_next_marker s3)"
    using cs by simp
  have "fst (to_next_marker s3) @ snd (to_next_marker s3) = dropWhile is_digit (e # es)"
    unfolding s3_def by (rule to_next_marker_id)
  then have 2: "takeWhile is_digit (fst (to_next_marker s3)) = []"
    by (rule takeWhile_prefix_dropWhile)
  show "\<exists>y. fst (to_next_marker cs)
            = takeWhile is_space cs @ takeWhile is_digit (dropWhile is_space cs) @ y
          \<and> takeWhile is_digit y = []"
    using 1 2 by (auto simp: w_def n_def dw)
  show "takeWhile is_digit (dropWhile is_space cs) \<noteq> []"
    using e by (simp add: dw)
qed

lemma digits_in_block:
  assumes "x = takeWhile is_space cs @ takeWhile is_digit (dropWhile is_space cs) @ y"
    and "takeWhile is_digit y = []"
    and "takeWhile is_digit (dropWhile is_space cs) \<noteq> []"
  shows "takeWhile is_digit (dropWhile is_space x) = takeWhile is_digit (dropWhile is_space cs)"
    and "takeWhile is_space x = takeWhile is_space cs"
proof -
  define n where "n = takeWhile is_digit (dropWhile is_space cs)"
  have n: "\<forall>a\<in>set n. is_digit a" "n \<noteq> []"
    using assms(3) by (auto simp: n_def dest: set_takeWhileD)
  then obtain e es where es: "n = e # es" "is_digit e"
    by (cases n) auto
  then have "\<not> is_space e" by (simp add: digit_not_space)
  then have "dropWhile is_space x = n @ y"
    unfolding assms(1) n_def [symmetric] es
    by (auto simp: dropWhile_append dest: set_takeWhileD)
  then show "takeWhile is_digit (dropWhile is_space x) = takeWhile is_digit (dropWhile is_space cs)"
    using n assms(2) by (simp add: takeWhile_append n_def [symmetric])
  show "takeWhile is_space x = takeWhile is_space cs"
    unfolding assms(1) n_def [symmetric] es using \<open>\<not> is_space e\<close>
    by (auto simp: takeWhile_append dest: set_takeWhileD)
qed

lemma mcq_matches_parts:
  "(x, d) \<in> set (mcq_matches s) \<Longrightarrow>
   \<exists>w y. x = CHR ''Q'' # w @ d @ y \<and> (\<forall>a\<in>set w. is_space a) \<and> d \<noteq> []
        \<and> (\<forall>a\<in>set d. is_digit a) \<and> takeWhile is_digit y = []"
proof (induction s rule: mcq_matches.induct)
  case 1
  then show ?case by simp
next
  case (2 c cs)
  show ?case
  proof (cases "marker_at (c # cs)")
    case False
    then show ?thesis using 2 by simp
  next
    case True
    then have c: "c = CHR ''Q''" by (auto elim: marker_atE)
    show ?thesis
    proof (cases "(x, d) \<in> set (mcq_matches (snd (to_next_marker cs)))")
      case True
      then show ?thesis using 2(1) \<open>marker_at (c # cs)\<close> by simp
    next
      case False
      with 2(3) True have x: "x = c # fst (to_next_marker cs)"
        and d: "d = takeWhile is_digit (dropWhile is_space cs)" by auto
      from marker_header [OF True] obtain y where
        y: "fst (to_next_marker cs)
            = takeWhile is_space cs @ takeWhile is_digit (dropWhile is_space cs) @ y"
           "takeWhile is_digit y = []" and ne: "takeWhile is_digit (dropWhile is_space cs) \<noteq> []"
        by blast
      have "x = CHR ''Q'' # takeWhile is_space cs @ d @ y"
        using x c y(1) d by simp
      moreover have "\<forall>a\<in>set (takeWhile is_space cs). is_space a"
        by (auto dest: set_takeWhileD)
      moreover have "\<forall>a\<in>set d. is_digit a"
        unfolding d by (auto dest: set_takeWhileD)
      ultimately show ?thesis
        using y(2) ne d by blast
    qed
  qed
qed

lemma parts_digits:
  assumes "\<forall>a\<in>set w. is_space a" "d \<noteq> []" "\<forall>a\<in>set d. is_digit a" "takeWhile is_digit y = []"
  shows "takeWhile is_digit (dropWhile is_space (w @ d @ y)) = d"
    and "takeWhile is_space (w @ d @ y) = w"
proof -
  from assms(2,3) obtain e es where es: "d = e # es" "is_digit e"
    by (cases d) auto
  then have e: "\<not> is_space e" by (simp add: digit_not_space)
  have "dropWhile is_space (w @ d @ y) = d @ y"
    using assms(1) e es(1) by (simp add: dropWhile_append)
  then show "takeWhile is_digit (dropWhile is_space (w @ d @ y)) = d"
    using assms(3,4) by (simp add: takeWhile_append)
  show "takeWhile is_space (w @ d @ y) = w"
    using assms(1) e es(1) by (simp add: takeWhile_append)
qed

lemma strip_keep:
  assumes "p \<noteq> []" "\<not> is_space (hd p)" "\<not> is_space (last p)"
  shows "\<exists>y'. strip (p @ y) = p @ y' \<and> prefix y' y"
proof -
  have 1: "dropWhile is_space (p @ y) = p @ y"
    using assms(1,2) by (cases p) auto
  have 2: "dropWhile is_space (rev p) = rev p"
    using assms(1,3) by (cases "rev p") (auto simp: hd_rev)
  show ?thesis
  proof (cases "\<forall>a\<in>set y. is_space a")
    case True
    then have "strip (p @ y) = p @ [] \<and> prefix [] y"
      unfolding strip_def 1 by (simp add: dropWhile_append 2)
    then show ?thesis by blast
  next
    case False
    then have "strip (p @ y) = p @ rev (dropWhile is_space (rev y))"
      unfolding strip_def 1 by (auto simp: dropWhile_append)
    moreover have "prefix (rev (dropWhile is_space (rev y))) y"
      by (metis prefixI rev_append rev_rev_ident takeWhile_dropWhile_id)
    ultimately show ?thesis by blast
  qed
qed

lemma takeWhile_prefix_Nil: "takeWhile P y = [] \<Longrightarrow> prefix y' y \<Longrightarrow> takeWhile P y' = []"
  by (cases y'; cases y) (auto split: if_splits)

lemma parts_strip:
  assumes "\<forall>a\<in>set w. is_space a" "d \<noteq> []" "\<forall>a\<in>set d. is_digit a" "takeWhile is_digit y = []"
  shows "\<exists>y'. strip (CHR ''Q'' # w @ d @ y) = CHR ''Q'' # w @ d @ y' \<and> takeWhile is_digit y' = []"
proof -
  have "\<not> is_space (last d)"
    using assms(2,3) digit_not_space last_in_set by blast
  then have "\<not> is_space (last (CHR ''Q'' # w @ d))"
    using assms(2) by simp
  moreover have "\<not> is_space (hd (CHR ''Q'' # w @ d))"
    using space_not_Q by auto
  ultimately obtain y' where "strip ((CHR ''Q'' # w @ d) @ y) = (CHR ''Q'' # w @ d) @ y'" "prefix y' y"
    using strip_keep [of "CHR ''Q'' # w @ d" y] by blast
  then show ?thesis
    using takeWhile_prefix_Nil [OF assms(4)] by auto
qed

lemma strip_digits: "\<forall>a\<in>set d. is_digit a \<Longrightarrow> strip d = d"
proof -
  assume a: "\<forall>a\<in>set d. is_digit a"
  have "dropWhile is_space xs = xs" if "\<forall>a\<in>set xs. is_digit a" for xs
    using that digit_not_space by (cases xs) auto
  from this [of d] this [of "rev d"] a show ?thesis
    by (simp add: strip_def)
qed

lemma parse_loop_mcq:
  "\<forall>(x, d)\<in>set ms. strip x \<noteq> [] \<Longrightarrow>
   parse_loop (map (\<lambda>(x, d). (x, [2 \<mapsto> d, 1 \<mapsto> x])) ms) acc
     = Inr (acc @ map (\<lambda>(x, d). \<lparr>q_num_str = strip d, full_text = strip x\<rparr>) ms)"
  by (induction ms arbitrary: acc) (auto simp: Let_def)

lemma parse_mcqs:
  "parse_mcqs_from_text t
     = Inr (map (\<lambda>(x, d). \<lparr>q_num_str = d, full_text = strip x\<rparr>) (mcq_matches t))"
proof -
  have ne: "\<forall>(x, d)\<in>set (mcq_matches t). strip x \<noteq> []"
  proof clarify
    fix x d assume xd: "(x, d) \<in> set (mcq_matches t)" and e: "strip x = []"
    from mcq_matches_parts [OF xd] obtain w y where p: "x = CHR ''Q'' # w @ d @ y"
      "\<forall>a\<in>set w. is_space a" "d \<noteq> []" "\<forall>a\<in>set d. is_digit a" "takeWhile is_digit y = []"
      by blast
    from parts_strip [OF p(2-5)] e p(1) show False by auto
  qed
  have "map (\<lambda>(x, d). \<lparr>q_num_str = strip d, full_text = strip x\<rparr>) (mcq_matches t)
      = map (\<lambda>(x, d). \<lparr>q_num_str = d, full_text = strip x\<rparr>) (mcq_matches t)"
  proof (rule map_cong [OF refl], clarsimp)
    fix x d assume "(x, d) \<in> set (mcq_matches t)"
    from mcq_matches_parts [OF this] have "\<forall>a\<in>set d. is_digit a" by blast
    then show "strip d = d"
      by (rule strip_digits)
  qed
  then show ?thesis
    unfolding parse_mcqs_from_text_def finditer_mcq using parse_loop_mcq [OF ne, of "[]"] by simp
qed

section \<open>Markers by position\<close>

lemma marker_positions_Nil: "marker_positions [] = []"
  by (simp add: marker_positions_def)

lemma marker_positions_Cons:
  "marker_positions (c # cs)
     = (if marker_at (c # cs) then [0] else []) @ map Suc (marker_positions cs)"
proof -
  have "[0..<length (c # cs)] = 0 # map Suc [0..<length cs]"
    by (simp add: upt_conv_Cons map_Suc_upt del: upt_Suc)
  then show ?thesis
    by (simp add: marker_positions_def filter_map comp_def)
qed

lemma marker_positions_skip:
  "\<forall>k<length y. \<not> marker_at (drop k (y @ r)) \<Longrightarrow>
   marker_positions (y @ r) = map (\<lambda>p. p + length y) (marker_positions r)"
proof (induction y)
  case Nil
  then show ?case by simp
next
  case (Cons a ys)
  from Cons.prems have "\<not> marker_at (a # ys @ r)" by force
  moreover from Cons.prems have "\<forall>k<length ys. \<not> marker_at (drop k (ys @ r))" by force
  ultimately show ?case
    using Cons.IH by (simp add: marker_positions_Cons)
qed

lemma marker_positions_after:
  assumes "marker_at (c # cs)"
  shows "marker_positions (c # cs)
     = 0 # map (\<lambda>p. p + Suc (length (fst (to_next_marker cs))))
             (marker_positions (snd (to_next_marker cs)))"
proof -
  have "\<forall>k<length (fst (to_next_marker cs)).
          \<not> marker_at (drop k (fst (to_next_marker cs) @ snd (to_next_marker cs)))"
    by (simp add: to_next_marker_id to_next_marker_skips)
  from marker_positions_skip [OF this] show ?thesis
    using assms by (simp add: marker_positions_Cons to_next_marker_id)
qed

lemma marker_positions_rest:
  "marker_positions (snd (to_next_marker cs)) = [] \<and> snd (to_next_marker cs) = []
   \<or> (\<exists>ps. marker_positions (snd (to_next_marker cs)) = 0 # ps)"
proof (cases "snd (to_next_marker cs)")
  case Nil
  then show ?thesis by (simp add: marker_positions_Nil)
next
  case (Cons a as)
  then have "marker_at (a # as)" using to_next_marker_stops [of cs] by simp
  then show ?thesis using Cons by (simp add: marker_positions_Cons)
qed

lemma zip_successors:
  "zip (a # M) (M @ [e]) = (a, hd (M @ [e])) # zip M (tl M @ [e])"
  by (cases M) auto

lemma slices_shift:
  "map (slice s) (zip (map (\<lambda>p. p + k) P) (tl (map (\<lambda>p. p + k) P) @ [n + k]))
     = map (slice (drop k s)) (zip P (tl P @ [n]))"
proof -
  have "tl (map (\<lambda>p. p + k) P) @ [n + k] = map (\<lambda>p. p + k) (tl P @ [n])"
    by (simp add: map_tl)
  then have "zip (map (\<lambda>p. p + k) P) (tl (map (\<lambda>p. p + k) P) @ [n + k])
      = map (\<lambda>(a, b). (a + k, b + k)) (zip P (tl P @ [n]))"
    by (simp only: zip_map_map)
  moreover have "slice s (a + k, b + k) = slice (drop k s) (a, b)" for a b
    by (simp add: slice_def add.commute)
  ultimately show ?thesis
    by (simp add: comp_def case_prod_unfold)
qed

lemma spans_slices:
  "map fst (mcq_matches s)
     = map (slice s) (zip (marker_positions s) (tl (marker_positions s) @ [length s]))"
proof (induction s rule: mcq_matches.induct)
  case 1
  show ?case by (simp add: marker_positions_Nil)
next
  case (2 c cs)
  show ?case
  proof (cases "marker_at (c # cs)")
    case False
    have "map (slice (c # cs)) (zip (map (\<lambda>p. p + 1) (marker_positions cs))
             (tl (map (\<lambda>p. p + 1) (marker_positions cs)) @ [length cs + 1]))
        = map (slice (drop 1 (c # cs))) (zip (marker_positions cs) (tl (marker_positions cs) @ [length cs]))"
      by (rule slices_shift)
    then show ?thesis
      using False 2(2) by (simp add: marker_positions_Cons)
  next
    case True
    define y where "y = fst (to_next_marker cs)"
    define r where "r = snd (to_next_marker cs)"
    define k where "k = Suc (length y)"
    define M where "M = map (\<lambda>p. p + k) (marker_positions r)"
    have cs: "cs = y @ r" by (simp add: y_def r_def to_next_marker_id)
    have mp: "marker_positions (c # cs) = 0 # M"
      using marker_positions_after [OF True] by (simp add: M_def k_def y_def r_def)
    have len: "length (c # cs) = length r + k"
      by (simp add: cs k_def)
    have "marker_positions r = [] \<and> r = [] \<or> (\<exists>ps. marker_positions r = 0 # ps)"
      unfolding r_def by (rule marker_positions_rest)
    then have hd: "hd (M @ [length (c # cs)]) = k"
      by (auto simp: M_def cs k_def)
    have first: "slice (c # cs) (0, k) = c # y"
      by (simp add: slice_def k_def cs)
    have "map (slice (c # cs)) (zip M (tl M @ [length (c # cs)]))
        = map (slice (drop k (c # cs))) (zip (marker_positions r) (tl (marker_positions r) @ [length r]))"
      unfolding M_def len by (rule slices_shift)
    moreover have "drop k (c # cs) = r"
      by (simp add: k_def cs)
    ultimately have rest: "map (slice (c # cs)) (zip M (tl M @ [length (c # cs)]))
        = map fst (mcq_matches r)"
      using 2(1) [OF True] by (simp add: r_def)
    have "map (slice (c # cs)) (zip (marker_positions (c # cs))
             (tl (marker_positions (c # cs)) @ [length (c # cs)]))
        = slice (c # cs) (0, hd (M @ [length (c # cs)]))
            # map (slice (c # cs)) (zip M (tl M @ [length (c # cs)]))"
      unfolding mp list.sel zip_successors by simp
    then show ?thesis
      unfolding hd first rest using True by (simp add: y_def r_def)
  qed
qed

lemma length_mcq_matches: "length (mcq_matches s) = length (marker_positions s)"
proof -
  have "length (map fst (mcq_matches s))
      = length (zip (marker_positions s) (tl (marker_positions s) @ [length s]))"
    by (simp only: spans_slices length_map)
  then show ?thesis
    by (cases "marker_positions s") auto
qed

lemma concat_spans:
  "concat (map fst (mcq_matches s))
     = (case marker_positions s of [] \<Rightarrow> [] | p # _ \<Rightarrow> drop p s)"
proof (induction s rule: mcq_matches.induct)
  case 1
  show ?case by (simp add: marker_positions_Nil)
next
  case (2 c cs)
  show ?case
  proof (cases "marker_at (c # cs)")
    case False
    then show ?thesis
      using 2(2) by (simp add: marker_positions_Cons split: list.splits)
  next
    case True
    have "concat (map fst (mcq_matches (snd (to_next_marker cs)))) = snd (to_next_marker cs)"
      using 2(1) [OF True] marker_positions_rest [of cs] by auto
    then show ?thesis
      using True by (simp add: marker_positions_Cons to_next_marker_id)
  qed
qed

lemma markers_of_spans:
  "map (\<lambda>p. marker_of (drop p s)) (marker_positions s)
     = map (\<lambda>(x, d). marker_of x) (mcq_matches s)"
proof (induction s rule: mcq_matches.induct)
  case 1
  show ?case by (simp add: marker_positions_Nil)
next
  case (2 c cs)
  show ?case
  proof (cases "marker_at (c # cs)")
    case False
    then show ?thesis
      using 2(2) by (simp add: marker_positions_Cons comp_def)
  next
    case True
    from marker_header [OF True] obtain y where
      y: "fst (to_next_marker cs)
            = takeWhile is_space cs @ takeWhile is_digit (dropWhile is_space cs) @ y"
         "takeWhile is_digit y = []" and ne: "takeWhile is_digit (dropWhile is_space cs) \<noteq> []"
      by blast
    have first: "marker_of (c # fst (to_next_marker cs)) = marker_of (c # cs)"
      using digits_in_block [OF y ne] by (simp add: marker_of_def)
    have "drop (Suc (length (fst (to_next_marker cs)))) (c # cs) = snd (to_next_marker cs)"
      by (simp add: to_next_marker_drop)
    then have "drop (p + Suc (length (fst (to_next_marker cs)))) (c # cs)
        = drop p (snd (to_next_marker cs))" for p
      by (metis drop_drop)
    then have "map (\<lambda>p. marker_of (drop (p + Suc (length (fst (to_next_marker cs)))) (c # cs)))
                 (marker_positions (snd (to_next_marker cs)))
        = map (\<lambda>p. marker_of (drop p (snd (to_next_marker cs))))
                 (marker_positions (snd (to_next_marker cs)))"
      by (simp only:)
    then show ?thesis
      using True 2(1) [OF True] first
      by (simp add: marker_positions_after comp_def)
  qed
qed

section \<open>The conversion and the loop\<close>

lemma digits_value_digits:
  "\<forall>a\<in>set cs. is_digit a \<Longrightarrow>
   digits_value acc cs = Some (foldl (\<lambda>n c. 10 * n + digit_val c) acc cs)"
  by (induction acc cs rule: digits_value.induct) auto

lemma digit_not_int_space: "is_digit c \<Longrightarrow> \<not> int_space c"
  by (auto simp: is_digit_def int_space_def Let_def)

lemma digit_not_sign: "is_digit c \<Longrightarrow> c \<noteq> CHR ''-'' \<and> c \<noteq> CHR ''+''"
  by (auto simp: is_digit_def)

lemma dropWhile_int_space_digits:
  "\<forall>a\<in>set xs. is_digit a \<Longrightarrow> dropWhile int_space xs = xs"
  using digit_not_int_space by (cases xs) auto

lemma py_int_strip_digits:
  "\<forall>a\<in>set d. is_digit a \<Longrightarrow> rev (dropWhile int_space (rev (dropWhile int_space d))) = d"
  using dropWhile_int_space_digits [of d] dropWhile_int_space_digits [of "rev d"] by simp

lemma py_int_digits:
  assumes "d \<noteq> []" "\<forall>a\<in>set d. is_digit a" "length d \<le> int_max_str_digits"
  shows "py_int d = Some (decimal d)"
proof -
  from assms obtain c cs where d: "d = c # cs" "is_digit c" "\<forall>a\<in>set cs. is_digit a"
    by (cases d) auto
  have f: "filter is_digit d = d"
    using assms(2) by simp
  have "unsigned_value (c # cs) = Some (decimal (c # cs))"
    using d(2) digits_value_digits [OF d(3)] by (simp add: unsigned_value_def decimal_def)
  then show ?thesis
    unfolding py_int_def py_int_strip_digits [OF assms(2)] Let_def f
    using d(1,2) digit_not_sign [of c] assms(3) by simp
qed

lemma py_int_too_long:
  assumes "\<forall>a\<in>set d. is_digit a" "int_max_str_digits < length d"
  shows "py_int d = None"
proof -
  have f: "filter is_digit d = d"
    using assms(1) by simp
  show ?thesis
    unfolding py_int_def py_int_strip_digits [OF assms(1)] Let_def f
    using assms(2) by simp
qed

lemma decimal_nonneg: "\<forall>a\<in>set d. is_digit a \<Longrightarrow> 0 \<le> decimal d"
proof -
  have "0 \<le> foldl (\<lambda>n c. 10 * n + digit_val c) acc d"
    if "\<forall>a\<in>set d. is_digit a" "0 \<le> acc" for acc
    using that
  proof (induction d arbitrary: acc)
    case Nil
    then show ?case by simp
  next
    case (Cons a d)
    then have "0 \<le> 10 * acc + digit_val a"
      by (auto simp: is_digit_def digit_val_def Let_def)
    with Cons show ?case by simp
  qed
  then show "\<forall>a\<in>set d. is_digit a \<Longrightarrow> 0 \<le> decimal d"
    by (simp add: decimal_def)
qed

lemma is_verdict_normal: "is_verdict v \<Longrightarrow> truthy v \<and> v \<noteq> JStr ''RATE_LIMIT_ERROR''"
  by (cases v) (auto simp: is_verdict_def)

lemma audit_loop_prefix:
  assumes "map Some es = map (\<lambda>k. report_entry
             (run_mcq_audit_gemini (api (Suc (n + k))) (full_text (ps ! k))) (ps ! k)) [0..<length ps]"
    and "\<forall>k<length ps. run_mcq_audit_gemini (api (Suc (n + k))) (full_text (ps ! k))
           \<noteq> JStr ''RATE_LIMIT_ERROR''"
  shows "audit_loop api n (ps @ qs) acc tr
     = audit_loop api (n + length ps) qs (acc @ es) (tr @ paced_calls n ps)"
  using assms
proof (induction ps arbitrary: n acc tr es)
  case Nil
  then show ?case by simp
next
  case (Cons p ps)
  define r where "r = run_mcq_audit_gemini (api (Suc n)) (full_text p)"
  from Cons.prems(1) obtain e es' where es: "es = e # es'"
    and e: "report_entry r p = Some e"
    and es': "map Some es' = map (\<lambda>k. report_entry
             (run_mcq_audit_gemini (api (Suc (Suc n + k))) (full_text (ps ! k))) (ps ! k)) [0..<length ps]"
    by (cases es) (auto simp: map_upt_Suc r_def simp del: upt_Suc)
  from Cons.prems(2) have r: "r \<noteq> JStr ''RATE_LIMIT_ERROR''"
    and rest: "\<forall>k<length ps. run_mcq_audit_gemini (api (Suc (Suc n + k))) (full_text (ps ! k))
           \<noteq> JStr ''RATE_LIMIT_ERROR''"
    by (force simp: r_def)+
  have "audit_loop api n ((p # ps) @ qs) acc tr
      = audit_loop api (Suc n) (ps @ qs) (acc @ [e]) ((tr @ [Classify (Suc n) (full_text p)]) @ [Sleep 5])"
    using r e
    by (auto simp: r_def [symmetric] report_entry_def failed_verdict_def Let_def split: if_splits)
  also have "\<dots> = audit_loop api (Suc n + length ps) qs ((acc @ [e]) @ es')
      (((tr @ [Classify (Suc n) (full_text p)]) @ [Sleep 5]) @ paced_calls (Suc n) ps)"
    using es' rest by (rule Cons.IH)
  finally show ?case
    by (simp add: es)
qed


lemma calls_of_paced:
  "calls_of (paced_calls n qs) = zip [Suc n..<Suc n + length qs] (map full_text qs)"
proof (induction qs arbitrary: n)
  case Nil
  show ?case by simp
next
  case (Cons q qs)
  have "[Suc n..<Suc n + length (q # qs)] = Suc n # [Suc (Suc n)..<Suc (Suc n) + length qs]"
    by (simp add: upt_conv_Cons del: upt_Suc)
  then show ?case
    using Cons [of "Suc n"] by simp
qed

lemma audit_loop_reports:
  "\<forall>q\<in>set qs. py_int (q_num_str q) \<noteq> None \<Longrightarrow>
   \<exists>report. fst (audit_loop api n qs acc tr) = Report report"
  by (induction qs arbitrary: n acc tr) (auto simp: Let_def)


lemma marker_at_regex: "marker_at s \<longleftrightarrow> rmatch marker_regex g s \<noteq> []"
proof (cases "marker_at s")
  case True
  then obtain cs d ds where s: "s = CHR ''Q'' # cs" and dw: "dropWhile is_space cs = d # ds"
    and d: "is_digit d" by (rule marker_atE)
  obtain z2 where 2: "rmatch (Plus is_digit) g (d # ds) =
      (takeWhile is_digit (d # ds), g, dropWhile is_digit (d # ds)) # z2"
    using plus_g_first [of is_digit d ds] d by auto
  obtain z3 where 3: "rmatch (Star is_space) g cs = (takeWhile is_space cs, g, d # ds) # z3"
    using star_g_first [of is_space cs] dw by auto
  have 4: "rmatch (Atom (lit CHR ''Q'')) g s = [([CHR ''Q''], g, cs)]"
    by (simp add: s lit_def)
  from rmatch_Seq_first [OF 3 2] obtain z6 y6 g6 s6
    where 6: "rmatch (Seq (Star is_space) (Plus is_digit)) g cs = (y6, g6, s6) # z6"
    by blast
  from rmatch_Seq_first [OF 4 6] obtain z7 where
    "rmatch (Seq (Atom (lit CHR ''Q'')) (Seq (Star is_space) (Plus is_digit))) g s
       = ([CHR ''Q''] @ y6, g6, s6) # z7"
    by blast
  then show ?thesis using True by (simp add: marker_regex_def)
next
  case False
  then show ?thesis
    using rmatch_marker_body_none(3) [OF False, of g]
    by (simp add: marker_regex_def)
qed

lemma marker_of_regex:
  assumes "marker_at s"
  shows "\<exists>r zs. rmatch marker_regex g s = (marker_of s, g, r) # zs"
proof -
  from assms obtain cs d ds where s: "s = CHR ''Q'' # cs" and dw: "dropWhile is_space cs = d # ds"
    and d: "is_digit d" by (rule marker_atE)
  obtain z2 where 2: "rmatch (Plus is_digit) g (d # ds) =
      (takeWhile is_digit (d # ds), g, dropWhile is_digit (d # ds)) # z2"
    using plus_g_first [of is_digit d ds] d by auto
  obtain z3 where 3: "rmatch (Star is_space) g cs = (takeWhile is_space cs, g, d # ds) # z3"
    using star_g_first [of is_space cs] dw by auto
  have 4: "rmatch (Atom (lit CHR ''Q'')) g s = [([CHR ''Q''], g, cs)]"
    by (simp add: s lit_def)
  from rmatch_Seq_first [OF 3 2] obtain z6
    where 6: "rmatch (Seq (Star is_space) (Plus is_digit)) g cs
       = (takeWhile is_space cs @ takeWhile is_digit (d # ds), g, dropWhile is_digit (d # ds)) # z6"
    by blast
  from rmatch_Seq_first [OF 4 6] obtain z7 where
    "rmatch (Seq (Atom (lit CHR ''Q'')) (Seq (Star is_space) (Plus is_digit))) g s
       = ([CHR ''Q''] @ takeWhile is_space cs @ takeWhile is_digit (d # ds), g,
          dropWhile is_digit (d # ds)) # z7"
    by blast
  then show ?thesis
    by (simp add: marker_regex_def marker_of_def s dw)
qed

lemma parsed_block_parts:
  assumes "parse_mcqs_from_text t = Inr blocks" "b \<in> set blocks"
  shows "\<exists>w y. full_text b = CHR ''Q'' # w @ q_num_str b @ y \<and> (\<forall>a\<in>set w. is_space a)
           \<and> q_num_str b \<noteq> [] \<and> (\<forall>a\<in>set (q_num_str b). is_digit a) \<and> takeWhile is_digit y = []"
proof -
  from assms obtain x d where mem: "(x, d) \<in> set (mcq_matches t)"
    and b: "b = \<lparr>q_num_str = d, full_text = strip x\<rparr>"
    by (auto simp: parse_mcqs)
  from mcq_matches_parts [OF mem] obtain w y where p: "x = CHR ''Q'' # w @ d @ y"
    "\<forall>a\<in>set w. is_space a" "d \<noteq> []" "\<forall>a\<in>set d. is_digit a" "takeWhile is_digit y = []"
    by blast
  from parts_strip [OF p(2-5)] obtain y' where "strip x = CHR ''Q'' # w @ d @ y'"
    "takeWhile is_digit y' = []"
    using p(1) by auto
  then show ?thesis
    using b p(2-4) by auto
qed

lemma parse_Q_digits:
  assumes "d \<noteq> []" "\<forall>a\<in>set d. is_digit a"
  shows "parse_mcqs_from_text (CHR ''Q'' # d) = Inr [\<lparr>q_num_str = d, full_text = CHR ''Q'' # d\<rparr>]"
proof -
  from assms obtain e es where d: "d = e # es" "is_digit e"
    by (cases d) auto
  then have dw: "dropWhile is_space d = d"
    using digit_not_space by simp
  have m: "marker_at (CHR ''Q'' # d)"
    unfolding marker_at_def using d digit_not_space by auto
  have "\<forall>a\<in>set d. a \<noteq> CHR ''Q''"
    using assms(2) digit_not_Q by blast
  from to_next_marker_append [OF this, of "[]"] have t: "to_next_marker d = (d, [])"
    by simp
  have tw: "takeWhile is_digit d = d"
    using assms(2) by (simp add: takeWhile_eq_all_conv)
  have mm: "mcq_matches (CHR ''Q'' # d) = [(CHR ''Q'' # d, d)]"
    using m by (simp add: t dw tw)
  have "\<not> is_space (last (CHR ''Q'' # d))"
    using assms digit_not_space last_in_set by simp
  moreover have "\<not> is_space (hd (CHR ''Q'' # d))"
    using space_not_Q by auto
  ultimately obtain y' where "strip ((CHR ''Q'' # d) @ []) = (CHR ''Q'' # d) @ y'" "prefix y' []"
    using strip_keep [of "CHR ''Q'' # d" "[]"] by blast
  then have "strip (CHR ''Q'' # d) = CHR ''Q'' # d"
    by simp
  then show ?thesis
    unfolding parse_mcqs mm by simp
qed

lemma plus_g_nonempty: "(x, r) \<in> set (plus_g P s) \<Longrightarrow> x \<noteq> []"
  by (cases s) (auto split: if_splits)

lemma doc_id_regex_group:
  "(x, g', r) \<in> set (rmatch doc_id_regex g s) \<Longrightarrow> \<exists>d. g' 1 = Some d \<and> d \<noteq> []"
  by (auto simp: doc_id_regex_def split: list.splits if_splits dest: plus_g_nonempty)

lemma extract_doc_id_nonempty: "extract_doc_id url = Some d \<Longrightarrow> d \<noteq> []"
proof -
  have "re_search doc_id_regex s = Some (x, g) \<Longrightarrow> \<exists>d. g 1 = Some d \<and> d \<noteq> []" for s x g
  proof (induction s)
    case Nil
    then show ?case
      using doc_id_regex_group [of x g _ Map.empty "[]"]
      by (auto split: list.splits)
  next
    case (Cons c cs)
    show ?case
    proof (cases "rmatch doc_id_regex Map.empty (c # cs)")
      case Nil
      then show ?thesis using Cons by simp
    next
      case (Cons m ms)
      obtain x' g' r' where m: "m = (x', g', r')" by (cases m)
      with Cons \<open>re_search doc_id_regex (c # cs) = Some (x, g)\<close> have "x' = x" "g' = g" by auto
      then have "(x, g, r') \<in> set (rmatch doc_id_regex Map.empty (c # cs))"
        using Cons m by simp
      then show ?thesis by (rule doc_id_regex_group)
    qed
  qed
  then show "extract_doc_id url = Some d \<Longrightarrow> d \<noteq> []"
    by (fastforce simp: extract_doc_id_def split: option.splits)
qed

section \<open>The audit loop under a rate limit\<close>



section \<open>The segmenter\<close>

text \<open>
  Claim C2. For a text with \<open>N\<close> positions at which a marker occurs,
  \<open>parse_mcqs_from_text\<close> returns \<open>N\<close> questions. The texts matched are the slices of
  the text from each marker position to the next one, the last to the end of the text,
  so that together they are the text from the first marker on; the text of a question is
  the text matched, stripped, and starts with the marker at its position.
\<close>

theorem segmenter_blocks:
  "\<exists>blocks. parse_mcqs_from_text t = Inr blocks
     \<and> length blocks = length (marker_positions t)
     \<and> map fst (finditer mcq_regex t)
         = map (slice t) (zip (marker_positions t) (tl (marker_positions t) @ [length t]))
     \<and> concat (map fst (finditer mcq_regex t))
         = (case marker_positions t of [] \<Rightarrow> [] | p # _ \<Rightarrow> drop p t)
     \<and> map full_text blocks = map (\<lambda>m. strip (fst m)) (finditer mcq_regex t)
     \<and> (\<forall>i<length blocks.
           prefix (marker_of (drop (marker_positions t ! i) t)) (full_text (blocks ! i)))"
proof -
  define blocks where
    "blocks = map (\<lambda>(x, d). \<lparr>q_num_str = d, full_text = strip x\<rparr>) (mcq_matches t)"
  have spans: "map fst (finditer mcq_regex t) = map fst (mcq_matches t)"
    by (simp add: finditer_mcq comp_def case_prod_unfold)
  have len: "length blocks = length (marker_positions t)"
    by (simp add: blocks_def length_mcq_matches)
  have texts: "map full_text blocks = map (\<lambda>m. strip (fst m)) (finditer mcq_regex t)"
    by (simp add: blocks_def finditer_mcq comp_def case_prod_unfold)
  have "prefix (marker_of (drop (marker_positions t ! i) t)) (full_text (blocks ! i))"
    if i: "i < length blocks" for i
  proof -
    obtain x d where xd: "mcq_matches t ! i = (x, d)" by (cases "mcq_matches t ! i")
    have mem: "(x, d) \<in> set (mcq_matches t)"
      using i xd by (metis blocks_def length_map nth_mem)
    have "map (\<lambda>p. marker_of (drop p t)) (marker_positions t) ! i
        = map (\<lambda>(x, d). marker_of x) (mcq_matches t) ! i"
      by (simp only: markers_of_spans)
    then have m: "marker_of (drop (marker_positions t ! i) t) = marker_of x"
      using i len xd by (simp add: blocks_def)
    from mcq_matches_parts [OF mem] obtain w y where p: "x = CHR ''Q'' # w @ d @ y"
      "\<forall>a\<in>set w. is_space a" "d \<noteq> []" "\<forall>a\<in>set d. is_digit a" "takeWhile is_digit y = []"
      by blast
    from parts_strip [OF p(2-5)] obtain y' where "strip x = CHR ''Q'' # w @ d @ y'"
      using p(1) by auto
    moreover have "marker_of x = CHR ''Q'' # w @ d"
      using parts_digits [OF p(2-5)] by (simp add: marker_of_def p(1))
    moreover have "full_text (blocks ! i) = strip x"
      using i xd by (simp add: blocks_def)
    ultimately show ?thesis
      using m by simp
  qed
  then show ?thesis
    using parse_mcqs [of t] len texts spans spans_slices [of t] concat_spans [of t]
    by (auto simp: blocks_def)
qed

theorem segmenter_blocks_witness:
  "parse_mcqs_from_text sample_text = Inr two_questions
   \<and> marker_positions sample_text = [1, 5]
   \<and> length two_questions = length (marker_positions sample_text)
   \<and> map fst (finditer mcq_regex sample_text) = [''Q1 a'', ''Q 2b'']
   \<and> concat (map fst (finditer mcq_regex sample_text)) = drop 1 sample_text
   \<and> marker_of (drop 5 sample_text) = ''Q 2''
   \<and> prefix ''Q 2'' (full_text (two_questions ! 1))"
proof -
  have p: "parse_mcqs_from_text sample_text = Inr two_questions"
    by code_simp
  have m: "marker_positions sample_text = [1, 5]"
    by code_simp
  have k: "marker_of (drop 5 sample_text) = ''Q 2''"
    by code_simp
  have sl: "map (slice sample_text) (zip [1, 5] (tl [1, 5] @ [length sample_text]))
      = [''Q1 a'', ''Q 2b'']"
    by code_simp
  from segmenter_blocks [of sample_text] obtain blocks where
    b: "parse_mcqs_from_text sample_text = Inr blocks"
       "length blocks = length (marker_positions sample_text)"
       "map fst (finditer mcq_regex sample_text)
         = map (slice sample_text)
             (zip (marker_positions sample_text)
                  (tl (marker_positions sample_text) @ [length sample_text]))"
       "concat (map fst (finditer mcq_regex sample_text))
         = (case marker_positions sample_text of [] \<Rightarrow> [] | p # _ \<Rightarrow> drop p sample_text)"
       "\<forall>i<length blocks.
           prefix (marker_of (drop (marker_positions sample_text ! i) sample_text))
             (full_text (blocks ! i))"
    by blast
  from b(1) p have bl: "blocks = two_questions" by simp
  have 1: "length two_questions = length (marker_positions sample_text)"
    using b(2) bl by simp
  have 2: "map fst (finditer mcq_regex sample_text) = [''Q1 a'', ''Q 2b'']"
    using b(3) unfolding m sl .
  have 3: "concat (map fst (finditer mcq_regex sample_text)) = drop 1 sample_text"
    using b(4) unfolding m by simp
  have "1 < length blocks"
    using b(2) m by simp
  with b(5) have "prefix (marker_of (drop (marker_positions sample_text ! 1) sample_text))
             (full_text (blocks ! 1))"
    by blast
  then have 4: "prefix ''Q 2'' (full_text (two_questions ! 1))"
    unfolding m bl using k by simp
  show ?thesis
    by (intro conjI p m 1 2 3 k 4)
qed

section \<open>The audit loop when one call fails\<close>

text \<open>
  When the call for the question at index \<open>j\<close> raises an exception whose text does not
  contain \<open>429\<close>, the loop goes on: the report has an entry for every question, entry
  \<open>j\<close> is the object with the summary \<open>Failed to audit (API or JSON error)\<close>, and
  every question is classified and followed by the pause.
\<close>

lemma failure_without_429_continues:
  assumes "j < length qs"
    and "api (Suc j) (full_text (qs ! j)) = Raised e"
    and "\<not> sublist ''429'' e"
    and "py_int (q_num_str (qs ! j)) = Some n"
    and "\<forall>k<length qs. k \<noteq> j \<longrightarrow>
           (\<exists>v. api (Suc k) (full_text (qs ! k)) = Loaded v \<and> is_verdict v)"
  shows "\<exists>report. audit_loop api 0 qs [] [] = (Report report, paced_calls 0 qs)
           \<and> length report = length qs
           \<and> report ! j
               = JDict [(''Q_no'', JInt n), (''Option Status'', JStr ''Inconclusive''),
                        (''Issue Summary'', JStr ''Failed to audit (API or JSON error)'')]
           \<and> (\<forall>k<length qs. k \<noteq> j \<longrightarrow> Loaded (report ! k) = api (Suc k) (full_text (qs ! k)))
           \<and> calls_of (paced_calls 0 qs) = zip [1..<Suc (length qs)] (map full_text qs)"
proof -
  define es where
    "es = map (\<lambda>k. if k = j then failed_verdict n
                    else run_mcq_audit_gemini (api (Suc k)) (full_text (qs ! k))) [0..<length qs]"
  have r: "api (Suc k) (full_text (qs ! k))
             = Loaded (run_mcq_audit_gemini (api (Suc k)) (full_text (qs ! k)))
           \<and> truthy (run_mcq_audit_gemini (api (Suc k)) (full_text (qs ! k)))
           \<and> run_mcq_audit_gemini (api (Suc k)) (full_text (qs ! k)) \<noteq> JStr ''RATE_LIMIT_ERROR''"
    if "k < length qs" "k \<noteq> j" for k
    using assms(5) that is_verdict_normal by (auto simp: run_mcq_audit_gemini_def)
  have f: "run_mcq_audit_gemini (api (Suc j)) (full_text (qs ! j)) = JNull"
    using assms(2,3) by (simp add: run_mcq_audit_gemini_def)
  have 1: "map Some es = map (\<lambda>k. report_entry
             (run_mcq_audit_gemini (api (Suc (0 + k))) (full_text (qs ! k))) (qs ! k)) [0..<length qs]"
    using r f assms(4) by (simp add: es_def report_entry_def)
  have 2: "\<forall>k<length qs. run_mcq_audit_gemini (api (Suc (0 + k))) (full_text (qs ! k))
           \<noteq> JStr ''RATE_LIMIT_ERROR''"
  proof (intro allI impI)
    fix k assume "k < length qs"
    then show "run_mcq_audit_gemini (api (Suc (0 + k))) (full_text (qs ! k)) \<noteq> JStr ''RATE_LIMIT_ERROR''"
      using r [of k] f by (cases "k = j") auto
  qed
  have "audit_loop api 0 (qs @ []) [] [] = audit_loop api (0 + length qs) [] ([] @ es) ([] @ paced_calls 0 qs)"
    using 1 2 by (rule audit_loop_prefix)
  then have "audit_loop api 0 qs [] [] = (Report es, paced_calls 0 qs)"
    by simp
  moreover have "length es = length qs"
    by (simp add: es_def)
  moreover have "es ! j
               = JDict [(''Q_no'', JInt n), (''Option Status'', JStr ''Inconclusive''),
                        (''Issue Summary'', JStr ''Failed to audit (API or JSON error)'')]"
    using assms(1) by (simp add: es_def failed_verdict_def)
  moreover have "\<forall>k<length qs. k \<noteq> j \<longrightarrow> Loaded (es ! k) = api (Suc k) (full_text (qs ! k))"
    using r by (simp add: es_def)
  ultimately show ?thesis
    using calls_of_paced [of 0 qs] by auto
qed

text \<open>
  Claim C3 asks this for every failure of a call that is not the rate limit, a response
  that is not JSON among them. The program does not do it for all of them: it takes an
  exception for the rate-limit signal when its text contains \<open>429\<close>, and the text
  \<open>json.loads\<close> gives a response with its first error at character 429 does. Here the
  first of three calls gets such a response: the report is the single entry of a rate
  limit, and the second and the third question are never classified.
\<close>

theorem malformed_response_taken_for_rate_limit:
  "malformed_api 1 ''Q1 a'' = Raised ''Expecting value: line 1 column 430 (char 429)''
   \<and> malformed_api 2 ''Q 2b'' = Loaded (sample_verdict 2)
   \<and> malformed_api 3 ''Q3 c'' = Loaded (sample_verdict 3)
   \<and> run_mcq_audit_gemini (malformed_api 1) ''Q1 a'' = JStr ''RATE_LIMIT_ERROR''
   \<and> length three_questions = 3
   \<and> audit_loop malformed_api 0 three_questions [] []
       = (Report [JDict [(''Q_no'', JInt 1), (''Option Status'', JStr ''Inconclusive''),
                         (''Issue Summary'', JStr ''Failed: API Rate Limit hit.'')]],
          [Classify 1 ''Q1 a''])"
  by code_simp

section \<open>The audit loop when every call succeeds\<close>

text \<open>
  Claim C4. Let every call return a verdict of the schema. Then the classifier is called
  once per question, in order (calls 1 to \<open>K\<close> with the texts of the questions), and the
  report is the \<open>K\<close> values returned, in order and unchanged; \<open>Q_no\<close> is not compared with
  \<open>q_num_str\<close>.
\<close>

theorem audit_all_normal:
  assumes "\<forall>k<length qs. \<exists>v. api (Suc k) (full_text (qs ! k)) = Loaded v \<and> is_verdict v"
  shows "\<exists>report. audit_loop api 0 qs [] [] = (Report report, paced_calls 0 qs)
           \<and> length report = length qs
           \<and> map Loaded report = map (\<lambda>k. api (Suc k) (full_text (qs ! k))) [0..<length qs]
           \<and> calls_of (paced_calls 0 qs) = zip [1..<Suc (length qs)] (map full_text qs)"
proof -
  define es where
    "es = map (\<lambda>k. run_mcq_audit_gemini (api (Suc k)) (full_text (qs ! k))) [0..<length qs]"
  have r: "api (Suc k) (full_text (qs ! k))
             = Loaded (run_mcq_audit_gemini (api (Suc k)) (full_text (qs ! k)))
           \<and> is_verdict (run_mcq_audit_gemini (api (Suc k)) (full_text (qs ! k)))"
    if "k < length qs" for k
    using assms that by (auto simp: run_mcq_audit_gemini_def)
  have 1: "map Some es = map (\<lambda>k. report_entry
             (run_mcq_audit_gemini (api (Suc (0 + k))) (full_text (qs ! k))) (qs ! k)) [0..<length qs]"
    using r is_verdict_normal by (auto simp: es_def report_entry_def)
  have 2: "\<forall>k<length qs. run_mcq_audit_gemini (api (Suc (0 + k))) (full_text (qs ! k))
           \<noteq> JStr ''RATE_LIMIT_ERROR''"
    using r is_verdict_normal by auto
  have "audit_loop api 0 (qs @ []) [] [] = audit_loop api (0 + length qs) [] ([] @ es) ([] @ paced_calls 0 qs)"
    using 1 2 by (rule audit_loop_prefix)
  then have "audit_loop api 0 qs [] [] = (Report es, paced_calls 0 qs)"
    by simp
  moreover have "map Loaded es = map (\<lambda>k. api (Suc k) (full_text (qs ! k))) [0..<length qs]"
    using r by (simp add: es_def)
  moreover have "length es = length qs"
    by (simp add: es_def)
  ultimately show ?thesis
    using calls_of_paced [of 0 qs] by auto
qed

theorem audit_all_normal_witness:
  "normal_api 1 ''Q1 a'' = Loaded (sample_verdict 1) \<and> is_verdict (sample_verdict 1)
   \<and> normal_api 2 ''Q 2b'' = Loaded (sample_verdict 2) \<and> is_verdict (sample_verdict 2)
   \<and> audit_loop normal_api 0 two_questions [] []
       = (Report [sample_verdict 1, sample_verdict 2],
          [Classify 1 ''Q1 a'', Sleep 5, Classify 2 ''Q 2b'', Sleep 5])
   \<and> calls_of [Classify 1 ''Q1 a'', Sleep 5, Classify 2 ''Q 2b'', Sleep 5]
       = [(1, ''Q1 a''), (2, ''Q 2b'')]"
proof -
  have v1: "normal_api 1 ''Q1 a'' = Loaded (sample_verdict 1)"
    and v2: "is_verdict (sample_verdict 1)"
    and v3: "normal_api 2 ''Q 2b'' = Loaded (sample_verdict 2)"
    and v4: "is_verdict (sample_verdict 2)"
    by (simp_all add: normal_api_def is_verdict_def sample_verdict_def)
  have "\<exists>v. normal_api (Suc k) (full_text (two_questions ! k)) = Loaded v \<and> is_verdict v" for k
    by (simp add: normal_api_def is_verdict_def sample_verdict_def)
  then have h: "\<forall>k<length two_questions.
      \<exists>v. normal_api (Suc k) (full_text (two_questions ! k)) = Loaded v \<and> is_verdict v"
    by blast
  have tr: "paced_calls 0 two_questions = [Classify 1 ''Q1 a'', Sleep 5, Classify 2 ''Q 2b'', Sleep 5]"
    by (simp add: two_questions_def)
  from audit_all_normal [OF h] obtain report where
    r: "audit_loop normal_api 0 two_questions [] [] = (Report report, paced_calls 0 two_questions)"
       "map Loaded report
          = map (\<lambda>k. normal_api (Suc k) (full_text (two_questions ! k))) [0..<length two_questions]"
       "calls_of (paced_calls 0 two_questions)
          = zip [1..<Suc (length two_questions)] (map full_text two_questions)"
    by blast
  from r(2) have rep: "report = [sample_verdict 1, sample_verdict 2]"
    by (auto simp: normal_api_def two_questions_def upt_rec)
  have run: "audit_loop normal_api 0 two_questions [] []
       = (Report [sample_verdict 1, sample_verdict 2],
          [Classify 1 ''Q1 a'', Sleep 5, Classify 2 ''Q 2b'', Sleep 5])"
    unfolding r(1) rep tr by simp
  have calls: "calls_of [Classify 1 ''Q1 a'', Sleep 5, Classify 2 ''Q 2b'', Sleep 5]
       = [(1, ''Q1 a''), (2, ''Q 2b'')]"
    using r(3) unfolding tr by (simp add: two_questions_def upt_rec)
  show ?thesis
    by (intro conjI v1 v2 v3 v4 run calls)
qed

section \<open>The pause\<close>




section \<open>A document without questions\<close>

text \<open>
  Claim C6, as the program has it. For a text without a marker \<open>parse_mcqs_from_text\<close>
  returns no question; when such a text is not empty and is the document fetched, the
  endpoint answers 404 with \<open>No valid question blocks (e.g., 'Q1') found.\<close> after the
  request for the document and without a classifier call.
\<close>

theorem no_markers_no_questions:
  assumes "marker_positions t = []"
  shows "parse_mcqs_from_text t = Inr []
       \<and> (\<not> no_key key \<and> extract_doc_id doc_url = Some doc_id
            \<and> requests_get (export_url doc_id) = Response 200 (Utf8 t) \<and> t \<noteq> []
          \<longrightarrow> audit_document key requests_get api doc_url
                = (HTTPException 404 ''No valid question blocks (e.g., 'Q1') found.'',
                   [HttpGet (export_url doc_id)]))"
proof -
  have "length (mcq_matches t) = 0"
    using assms by (simp add: length_mcq_matches)
  then have p: "parse_mcqs_from_text t = Inr []"
    by (simp add: parse_mcqs)
  then show ?thesis
    using extract_doc_id_nonempty [of doc_url doc_id]
    by (auto simp: audit_document_def get_google_doc_text_def)
qed

theorem no_markers_no_questions_witness:
  "marker_positions ''no questions here'' = []
   \<and> \<not> no_key (Some ''key'')
   \<and> extract_doc_id sample_url = Some ''abc''
   \<and> plain_document (export_url ''abc'') = Response 200 (Utf8 ''no questions here'')
   \<and> parse_mcqs_from_text ''no questions here'' = Inr []
   \<and> audit_document (Some ''key'') plain_document normal_api sample_url
       = (HTTPException 404 ''No valid question blocks (e.g., 'Q1') found.'',
          [HttpGet (export_url ''abc'')])"
proof -
  have m: "marker_positions ''no questions here'' = []"
    by code_simp
  have k: "\<not> no_key (Some ''key'')"
    by (simp add: no_key_def)
  have d: "extract_doc_id sample_url = Some ''abc''"
    by code_simp
  have g: "plain_document (export_url ''abc'') = Response 200 (Utf8 ''no questions here'')"
    by (simp add: plain_document_def)
  from no_markers_no_questions [OF m, of "Some ''key''" sample_url "''abc''" plain_document normal_api]
    k d g
  have "parse_mcqs_from_text ''no questions here'' = Inr []"
    and "audit_document (Some ''key'') plain_document normal_api sample_url
       = (HTTPException 404 ''No valid question blocks (e.g., 'Q1') found.'',
          [HttpGet (export_url ''abc'')])"
    by simp_all
  with m k d g show ?thesis
    by (intro conjI)
qed

text \<open>
  As stated, for every text without a marker, the claim fails on the empty text: it has
  no marker, and the endpoint answers it with the error of a failed fetch.
\<close>

theorem empty_text_counterexample:
  "marker_positions [] = []
   \<and> parse_mcqs_from_text [] = Inr []
   \<and> extract_doc_id sample_url = Some ''abc''
   \<and> empty_document (export_url ''abc'') = Response 200 (Utf8 [])
   \<and> audit_document (Some ''key'') empty_document normal_api sample_url
       = (HTTPException 404 ''Failed to get document text. Is it public?'',
          [HttpGet ''https://docs.google.com/document/d/abc/export?format=txt''])
   \<and> fst (audit_document (Some ''key'') empty_document normal_api sample_url)
       \<noteq> HTTPException 404 ''No valid question blocks (e.g., 'Q1') found.''"
  by code_simp

section \<open>A missing key\<close>

text \<open>
  Claim C7, as the program has it. Without a key (none, or the empty string) importing
  the module does not fail: it prints and leaves the client unconfigured. Every request
  is then answered 500 with \<open>Server is missing GOOGLE_API_KEY\<close>, with no request for
  a document and no classifier call, whatever the link.
\<close>

theorem missing_key_rejects_requests:
  assumes "no_key key"
  shows "(\<exists>st. load_module key = Inr st \<and> \<not> client_configured st)
       \<and> audit_document key requests_get api doc_url
           = (HTTPException 500 ''Server is missing GOOGLE_API_KEY'', [])"
  using assms by (simp add: load_module_def audit_document_def)

theorem missing_key_rejects_requests_witness:
  "no_key None \<and> no_key (Some [])
   \<and> load_module (Some [])
       = Inr \<lparr>client_configured = False,
              console = [''FATAL ERROR: 'GOOGLE_API_KEY' not found in .env file.'']\<rparr>
   \<and> audit_document None plain_document normal_api sample_url
       = (HTTPException 500 ''Server is missing GOOGLE_API_KEY'', [])
   \<and> audit_document (Some []) plain_document normal_api ''not a link''
       = (HTTPException 500 ''Server is missing GOOGLE_API_KEY'', [])"
proof -
  have k1: "no_key None" and k2: "no_key (Some [])"
    by (simp_all add: no_key_def)
  have l: "load_module (Some [])
       = Inr \<lparr>client_configured = False,
              console = [''FATAL ERROR: 'GOOGLE_API_KEY' not found in .env file.'']\<rparr>"
    by (simp add: load_module_def no_key_def)
  from missing_key_rejects_requests [OF k1, of plain_document normal_api sample_url]
  have 1: "audit_document None plain_document normal_api sample_url
       = (HTTPException 500 ''Server is missing GOOGLE_API_KEY'', [])"
    by blast
  from missing_key_rejects_requests [OF k2, of plain_document normal_api "''not a link''"]
  have 2: "audit_document (Some []) plain_document normal_api ''not a link''
       = (HTTPException 500 ''Server is missing GOOGLE_API_KEY'', [])"
    by blast
  show ?thesis
    by (intro conjI k1 k2 l 1 2)
qed

text \<open>
  As stated, with a failure before any request is handled, the claim fails: importing
  the module without a key returns normally.
\<close>

theorem startup_without_key_counterexample:
  "load_module None
     = Inr \<lparr>client_configured = False,
            console = [''FATAL ERROR: 'GOOGLE_API_KEY' not found in .env file.'']\<rparr>"
  by (simp add: load_module_def no_key_def)

section \<open>The number of a question\<close>

text \<open>
  Claim C8. The text of a question the segmenter returns starts with \<open>Q\<close>, and its
  \<open>q_num_str\<close> is the run of digits that follows the \<open>Q\<close> and the white space after it.
\<close>

theorem label_is_digit_run:
  assumes "parse_mcqs_from_text t = Inr blocks" and "b \<in> set blocks"
  shows "\<exists>cs. full_text b = CHR ''Q'' # cs
           \<and> q_num_str b = takeWhile is_digit (dropWhile is_space cs)"
proof -
  from parsed_block_parts [OF assms] obtain w y where
    p: "full_text b = CHR ''Q'' # w @ q_num_str b @ y" "\<forall>a\<in>set w. is_space a"
      "q_num_str b \<noteq> []" "\<forall>a\<in>set (q_num_str b). is_digit a" "takeWhile is_digit y = []"
    by blast
  from parts_digits(1) [OF p(2-5)] p(1) show ?thesis
    by simp
qed

theorem label_is_digit_run_witness:
  "parse_mcqs_from_text sample_text = Inr two_questions
   \<and> \<lparr>q_num_str = ''2'', full_text = ''Q 2b''\<rparr> \<in> set two_questions
   \<and> ''2'' = takeWhile is_digit (dropWhile is_space '' 2b'')"
proof -
  have p: "parse_mcqs_from_text sample_text = Inr two_questions"
    by code_simp
  have m: "\<lparr>q_num_str = ''2'', full_text = ''Q 2b''\<rparr> \<in> set two_questions"
    by (simp add: two_questions_def)
  from label_is_digit_run [OF p m] obtain cs where
    "full_text \<lparr>q_num_str = ''2'', full_text = ''Q 2b''\<rparr> = CHR ''Q'' # cs"
    "q_num_str \<lparr>q_num_str = ''2'', full_text = ''Q 2b''\<rparr>
       = takeWhile is_digit (dropWhile is_space cs)"
    by blast
  then have "''2'' = takeWhile is_digit (dropWhile is_space '' 2b'')"
    by simp
  with p m show ?thesis
    by (intro conjI)
qed

section \<open>An empty document\<close>

text \<open>
  Claim C9. When the document is fetched with status 200 and an empty content, the
  endpoint answers 404 with \<open>Failed to get document text. Is it public?\<close>, the answer
  of a failed fetch, and not the one of a document without questions; the text is
  tested before \<open>parse_mcqs_from_text\<close> is called.
\<close>

theorem empty_document_is_fetch_failure:
  assumes "\<not> no_key key"
    and "extract_doc_id doc_url = Some doc_id"
    and "requests_get (export_url doc_id) = Response 200 (Utf8 [])"
  shows "audit_document key requests_get api doc_url
           = (HTTPException 404 ''Failed to get document text. Is it public?'',
              [HttpGet (export_url doc_id)])
       \<and> fst (audit_document key requests_get api doc_url)
           \<noteq> HTTPException 404 ''No valid question blocks (e.g., 'Q1') found.''"
  using assms extract_doc_id_nonempty [OF assms(2)]
  by (simp add: audit_document_def get_google_doc_text_def)

theorem empty_document_is_fetch_failure_witness:
  "\<not> no_key (Some ''key'')
   \<and> extract_doc_id sample_url = Some ''abc''
   \<and> empty_document (export_url ''abc'') = Response 200 (Utf8 [])
   \<and> audit_document (Some ''key'') empty_document normal_api sample_url
       = (HTTPException 404 ''Failed to get document text. Is it public?'',
          [HttpGet (export_url ''abc'')])"
proof -
  have k: "\<not> no_key (Some ''key'')"
    by (simp add: no_key_def)
  have d: "extract_doc_id sample_url = Some ''abc''"
    by code_simp
  have g: "empty_document (export_url ''abc'') = Response 200 (Utf8 [])"
    by (simp add: empty_document_def)
  from empty_document_is_fetch_failure
         [where requests_get = empty_document and api = normal_api, OF k d g]
  have "audit_document (Some ''key'') empty_document normal_api sample_url
       = (HTTPException 404 ''Failed to get document text. Is it public?'',
          [HttpGet (export_url ''abc'')])"
    by blast
  with k d g show ?thesis
    by (intro conjI)
qed

section \<open>Converting the number of a question\<close>

text \<open>
  Claim C10, as the program has it. The \<open>q_num_str\<close> of a question the segmenter returns
  is a non-empty string of digits; \<open>int\<close> converts it, to its decimal value, when it has
  at most 4300 digits, and raises on a longer one. The loop over questions whose
  \<open>q_num_str\<close> has at most 4300 digits always ends with a report, never with a
  \<open>ValueError\<close>.
\<close>

theorem label_converts:
  assumes "parse_mcqs_from_text t = Inr blocks"
  shows "(\<forall>b\<in>set blocks. q_num_str b \<noteq> [] \<and> (\<forall>c\<in>set (q_num_str b). is_digit c)
            \<and> 0 \<le> decimal (q_num_str b)
            \<and> py_int (q_num_str b)
                = (if length (q_num_str b) \<le> int_max_str_digits
                   then Some (decimal (q_num_str b)) else None))
       \<and> ((\<forall>b\<in>set blocks. length (q_num_str b) \<le> int_max_str_digits)
            \<longrightarrow> (\<exists>report. fst (audit_loop api calls blocks final_audit_list trace)
                  = Report report))"
proof -
  have 1: "q_num_str b \<noteq> [] \<and> (\<forall>c\<in>set (q_num_str b). is_digit c)
            \<and> 0 \<le> decimal (q_num_str b)
            \<and> py_int (q_num_str b)
                = (if length (q_num_str b) \<le> int_max_str_digits
                   then Some (decimal (q_num_str b)) else None)"
    if b: "b \<in> set blocks" for b
  proof -
    from parsed_block_parts [OF assms b] have d: "q_num_str b \<noteq> []"
      "\<forall>c\<in>set (q_num_str b). is_digit c"
      by blast+
    show ?thesis
    proof (cases "length (q_num_str b) \<le> int_max_str_digits")
      case True
      with d py_int_digits [OF d True] decimal_nonneg [OF d(2)] show ?thesis by simp
    next
      case False
      then have "int_max_str_digits < length (q_num_str b)" by simp
      with d py_int_too_long [OF d(2) this] decimal_nonneg [OF d(2)] show ?thesis by simp
    qed
  qed
  have "\<exists>report. fst (audit_loop api calls blocks final_audit_list trace) = Report report"
    if "\<forall>b\<in>set blocks. length (q_num_str b) \<le> int_max_str_digits"
  proof -
    from that 1 have "\<forall>q\<in>set blocks. py_int (q_num_str q) \<noteq> None"
      by auto
    then show ?thesis by (rule audit_loop_reports)
  qed
  with 1 show ?thesis
    by blast
qed

theorem label_converts_witness:
  "parse_mcqs_from_text sample_text = Inr two_questions
   \<and> length ''1'' \<le> int_max_str_digits \<and> length ''2'' \<le> int_max_str_digits
   \<and> py_int ''2'' = Some 2
   \<and> fst (audit_loop flaky_api 0 two_questions [] [])
       = Report [sample_verdict 1,
                 JDict [(''Q_no'', JInt 2), (''Option Status'', JStr ''Inconclusive''),
                        (''Issue Summary'', JStr ''Failed to audit (API or JSON error)'')]]"
proof -
  have p: "parse_mcqs_from_text sample_text = Inr two_questions"
    by code_simp
  have m: "\<lparr>q_num_str = ''2'', full_text = ''Q 2b''\<rparr> \<in> set two_questions"
    by (simp add: two_questions_def)
  have l1: "length ''1'' \<le> int_max_str_digits" and l2: "length ''2'' \<le> int_max_str_digits"
    by (simp_all add: int_max_str_digits_def)
  then have l: "\<forall>b\<in>set two_questions. length (q_num_str b) \<le> int_max_str_digits"
    by (simp add: two_questions_def)
  have d: "decimal ''2'' = 2"
    by code_simp
  have run: "audit_loop flaky_api 0 two_questions [] []
      = (Report [sample_verdict 1,
                 JDict [(''Q_no'', JInt 2), (''Option Status'', JStr ''Inconclusive''),
                        (''Issue Summary'', JStr ''Failed to audit (API or JSON error)'')]],
         [Classify 1 ''Q1 a'', Sleep 5, Classify 2 ''Q 2b'', Sleep 5])"
    by code_simp
  from label_converts [OF p, of flaky_api 0 "[]" "[]"] have
    c: "\<forall>b\<in>set two_questions. q_num_str b \<noteq> [] \<and> (\<forall>c\<in>set (q_num_str b). is_digit c)
            \<and> 0 \<le> decimal (q_num_str b)
            \<and> py_int (q_num_str b)
                = (if length (q_num_str b) \<le> int_max_str_digits
                   then Some (decimal (q_num_str b)) else None)"
    and r: "(\<forall>b\<in>set two_questions. length (q_num_str b) \<le> int_max_str_digits)
            \<longrightarrow> (\<exists>report. fst (audit_loop flaky_api 0 two_questions [] []) = Report report)"
    by blast+
  from c m have "py_int ''2'' = (if length ''2'' \<le> int_max_str_digits then Some (decimal ''2'') else None)"
    by fastforce
  then have 1: "py_int ''2'' = Some 2"
    using d l2 by simp
  from r l have "\<exists>report. fst (audit_loop flaky_api 0 two_questions [] []) = Report report"
    by blast
  with run have 2: "fst (audit_loop flaky_api 0 two_questions [] [])
       = Report [sample_verdict 1,
                 JDict [(''Q_no'', JInt 2), (''Option Status'', JStr ''Inconclusive''),
                        (''Issue Summary'', JStr ''Failed to audit (API or JSON error)'')]]"
    by simp
  show ?thesis
    by (intro conjI p l1 l2 1 2)
qed

text \<open>
  As stated, with a conversion that never raises, the claim fails: a document that is a
  \<open>Q\<close> followed by 4301 zeros is one question whose \<open>q_num_str\<close> is the 4301 zeros, and
  when its classification fails \<open>int\<close> raises \<open>ValueError\<close>, which nothing catches.
\<close>

theorem long_label_counterexample:
  "long_label = replicate 4301 CHR ''0''
   \<and> length long_label = 4301
   \<and> parse_mcqs_from_text long_label_text
       = Inr [\<lparr>q_num_str = long_label, full_text = long_label_text\<rparr>]
   \<and> py_int long_label = None
   \<and> audit_loop broken_api 0 [\<lparr>q_num_str = long_label, full_text = long_label_text\<rparr>] [] []
       = (Uncaught ValueError, [Classify 1 long_label_text])
   \<and> audit_document (Some ''key'') long_label_document broken_api sample_url
       = (Uncaught ValueError,
          [HttpGet ''https://docs.google.com/document/d/abc/export?format=txt'',
           Classify 1 long_label_text])"
proof -
  have len: "length long_label = 4301"
    by (simp add: long_label_def)
  have ne: "long_label \<noteq> []"
    using len by auto
  have dig: "\<forall>a\<in>set long_label. is_digit a"
    by (simp add: long_label_def is_digit_def)
  have p: "parse_mcqs_from_text long_label_text
       = Inr [\<lparr>q_num_str = long_label, full_text = long_label_text\<rparr>]"
    unfolding long_label_text_def using ne dig by (rule parse_Q_digits)
  have i: "py_int long_label = None"
    using dig by (rule py_int_too_long) (simp add: len int_max_str_digits_def)
  have e: "\<not> sublist ''429'' ''500 Internal error''"
    by code_simp
  have r: "run_mcq_audit_gemini (broken_api 1) long_label_text = JNull"
    using e by (simp add: run_mcq_audit_gemini_def broken_api_def)
  have loop: "audit_loop broken_api 0 [\<lparr>q_num_str = long_label, full_text = long_label_text\<rparr>] [] tr
       = (Uncaught ValueError, tr @ [Classify 1 long_label_text])" for tr
    using r i by simp
  have loop0: "audit_loop broken_api 0 [\<lparr>q_num_str = long_label, full_text = long_label_text\<rparr>] [] []
       = (Uncaught ValueError, [Classify 1 long_label_text])"
    using loop [of "[]"] by (simp only: append_Nil)
  have d: "extract_doc_id sample_url = Some ''abc''"
    by code_simp
  have u: "export_url ''abc'' = ''https://docs.google.com/document/d/abc/export?format=txt''"
    by (simp add: export_url_def)
  have t: "long_label_text \<noteq> []"
    by (simp add: long_label_text_def)
  have doc: "audit_document (Some ''key'') long_label_document broken_api sample_url
       = (Uncaught ValueError,
          [HttpGet ''https://docs.google.com/document/d/abc/export?format=txt'',
           Classify 1 long_label_text])"
    unfolding audit_document_def d
    by (simp add: no_key_def get_google_doc_text_def long_label_document_def t p loop u
          del: audit_loop.simps)
  show ?thesis
    by (intro conjI long_label_def len p i loop0 doc)
qed

end
